theory Spec2Isabelle
  imports Main "HOL-Library.Sublist"
begin

section \<open>JavaScript values and strings\<close>

text \<open>
  The repository holds two variants of one browser script: the userscript
  (\<^verbatim>\<open>src/unnamed/part_000\<close>, repeated as the tail of \<^verbatim>\<open>src/index.js\<close>) and the
  extension called v3 (the head of \<^verbatim>\<open>src/index.js\<close>). Definitions of the v3 variant
  carry the suffix \<open>_v3\<close>.

  Strings are byte lists, the UTF-8 encoding of the text: substring search on the bytes
  agrees with the search on code points. \<^verbatim>\<open>toLowerCase\<close> maps the ASCII capitals; of the
  characters outside ASCII whose lower case contains an ASCII letter (U+0130 gives
  \<^verbatim>\<open>i\<close> with a combining dot, U+212A gives \<^verbatim>\<open>k\<close>), none yields a letter of the
  strings the script searches for, so the searches of the script are not affected.
\<close>

datatype error = TypeError | HostError

datatype js_value = Undefined | Null | Str string

fun truthy :: "js_value \<Rightarrow> bool" where
  "truthy (Str s) = (s \<noteq> [])"
| "truthy Undefined = False"
| "truthy Null = False"

text \<open>The operator \<^verbatim>\<open>a || b\<close>.\<close>

definition js_or :: "js_value \<Rightarrow> js_value \<Rightarrow> js_value" where
  "js_or a b = (if truthy a then a else b)"

text \<open>\<^verbatim>\<open>(x || '')\<close> for a text content \<open>x\<close>, read as a string.\<close>

definition text_or_empty :: "js_value \<Rightarrow> string" where
  "text_or_empty x = (case js_or x (Str []) of Str s \<Rightarrow> s | _ \<Rightarrow> [])"

fun toLowerCase_char :: "char \<Rightarrow> char" where
  "toLowerCase_char (Char b0 b1 b2 b3 b4 b5 b6 b7) =
     (let n = (of_char (Char b0 b1 b2 b3 b4 b5 b6 b7) :: nat)
      in if 65 \<le> n \<and> n \<le> 90 then Char b0 b1 b2 b3 b4 True b6 b7
         else Char b0 b1 b2 b3 b4 b5 b6 b7)"

definition toLowerCase :: "string \<Rightarrow> string" where
  "toLowerCase s = map toLowerCase_char s"

text \<open>\<^verbatim>\<open>s.includes(t)\<close>: \<open>t\<close> occurs in \<open>s\<close> at some position.\<close>

fun str_includes :: "string \<Rightarrow> string \<Rightarrow> bool" where
  "str_includes [] t = (t = [])"
| "str_includes (c # cs) t = (prefix t (c # cs) \<or> str_includes cs t)"

text \<open>
  \<^verbatim>\<open>s.trim()\<close> removes white space and line terminators from both ends: the code points
  U+0009 to U+000D, U+0020, U+00A0, U+1680, U+2000 to U+200A, U+2028, U+2029, U+202F,
  U+205F, U+3000 and U+FEFF, here in their UTF-8 encoding.
\<close>

definition white_space :: "string list" where
  "white_space =
     [[CHR 0x09], [CHR 0x0A], [CHR 0x0B], [CHR 0x0C], [CHR 0x0D], [CHR 0x20],
      [CHR 0xC2, CHR 0xA0],
      [CHR 0xE1, CHR 0x9A, CHR 0x80],
      [CHR 0xE2, CHR 0x80, CHR 0x80], [CHR 0xE2, CHR 0x80, CHR 0x81],
      [CHR 0xE2, CHR 0x80, CHR 0x82], [CHR 0xE2, CHR 0x80, CHR 0x83],
      [CHR 0xE2, CHR 0x80, CHR 0x84], [CHR 0xE2, CHR 0x80, CHR 0x85],
      [CHR 0xE2, CHR 0x80, CHR 0x86], [CHR 0xE2, CHR 0x80, CHR 0x87],
      [CHR 0xE2, CHR 0x80, CHR 0x88], [CHR 0xE2, CHR 0x80, CHR 0x89],
      [CHR 0xE2, CHR 0x80, CHR 0x8A],
      [CHR 0xE2, CHR 0x80, CHR 0xA8], [CHR 0xE2, CHR 0x80, CHR 0xA9],
      [CHR 0xE2, CHR 0x80, CHR 0xAF],
      [CHR 0xE2, CHR 0x81, CHR 0x9F],
      [CHR 0xE3, CHR 0x80, CHR 0x80],
      [CHR 0xEF, CHR 0xBB, CHR 0xBF]]"

definition is_space :: "string \<Rightarrow> bool" where
  "is_space bytes = (bytes \<in> set white_space)"

fun trimStart :: "string \<Rightarrow> string" where
  "trimStart (a # b # c # s) =
     (if is_space [a] then trimStart (b # c # s)
      else if is_space [a, b] then trimStart (c # s)
      else if is_space [a, b, c] then trimStart s
      else a # b # c # s)"
| "trimStart [a, b] =
     (if is_space [a] then trimStart [b] else if is_space [a, b] then [] else [a, b])"
| "trimStart [a] = (if is_space [a] then [] else [a])"
| "trimStart [] = []"

text \<open>The same from the end, on the reversed string.\<close>

fun trimEnd_rev :: "string \<Rightarrow> string" where
  "trimEnd_rev (a # b # c # s) =
     (if is_space [a] then trimEnd_rev (b # c # s)
      else if is_space [b, a] then trimEnd_rev (c # s)
      else if is_space [c, b, a] then trimEnd_rev s
      else a # b # c # s)"
| "trimEnd_rev [a, b] =
     (if is_space [a] then trimEnd_rev [b] else if is_space [b, a] then [] else [a, b])"
| "trimEnd_rev [a] = (if is_space [a] then [] else [a])"
| "trimEnd_rev [] = []"

definition trim :: "string \<Rightarrow> string" where
  "trim s = rev (trimEnd_rev (rev (trimStart s)))"

section \<open>Detection of front-end code\<close>

definition FRONTEND_MARKERS :: "string list" where
  "FRONTEND_MARKERS = [''html>'', ''<head>'', ''<body'']"

text \<open>
  Userscript: \<^verbatim>\<open>if (!content) return false; content = content.toLowerCase();
  return FRONTEND_MARKERS.some(tag => content.includes(tag));\<close>
\<close>

definition isFrontend :: "js_value \<Rightarrow> error + bool" where
  "isFrontend content =
     (if \<not> truthy content then Inr False
      else case content of
             Str s \<Rightarrow> Inr (list_ex (\<lambda>tag. str_includes (toLowerCase s) tag) FRONTEND_MARKERS)
           | _ \<Rightarrow> Inl TypeError)"

text \<open>
  v3: \<^verbatim>\<open>return ['html>', '<head>', '<body'].some(tag => content.includes(tag));\<close>
  Reading \<^verbatim>\<open>includes\<close> of \<^verbatim>\<open>null\<close> or \<^verbatim>\<open>undefined\<close> raises a TypeError.
\<close>

definition isFrontend_v3 :: "js_value \<Rightarrow> error + bool" where
  "isFrontend_v3 content =
     (case content of
        Str s \<Rightarrow> Inr (list_ex (\<lambda>tag. str_includes s tag) [''html>'', ''<head>'', ''<body''])
      | _ \<Rightarrow> Inl TypeError)"

section \<open>The page: DOM, host globals, timers\<close>

text \<open>
  What the script reads from the page is data of the model; what it calls is an external
  callee, of which the model keeps only whether the call returns or throws. What a callee
  or anyone else changes in the message text reaches the script as a batch of mutation
  records. The page state
  records, besides the children of the message text, the list of external calls made so
  far and the browser's table of active timers, which maps a timer's handle to the time at
  which it is due and to its callback. Time is counted in milliseconds.
\<close>

datatype outcome = Returns | Throws

text \<open>
  The DOM as the script queries it. Of the parent of a \<^verbatim>\<open>pre\<close>: its class list, and whether
  \<^verbatim>\<open>querySelector('iframe')\<close> finds something in it. Of a button: its text and what
  \<^verbatim>\<open>click()\<close> does. Of a message: the three attributes the message id is read from
  (\<^verbatim>\<open>getAttribute\<close> gives a string or \<^verbatim>\<open>null\<close>). Of a message text: its identity, what
  \<^verbatim>\<open>dispatchEvent\<close> and \<^verbatim>\<open>appendChild\<close> do, the elements found by the selector of the
  button strategy and by \<^verbatim>\<open>querySelectorAll('pre')\<close>, in document order, whether
  \<^verbatim>\<open>querySelector('iframe')\<close> finds something, and the result of \<^verbatim>\<open>closest('.mes')\<close>.
\<close>

record parent_element =
  classList :: "string list"
  parent_has_iframe :: bool

record pre =
  pre_textContent :: js_value
  parentElement :: "parent_element option"

record button =
  btn_textContent :: js_value
  click :: outcome

record mes =
  mesid :: js_value
  data_mesid :: js_value
  data_id :: js_value

record element =
  node_id :: nat
  dispatchEvent :: outcome
  appendChild :: outcome
  buttons :: "button list"
  pres :: "pre list"
  contains_iframe :: bool
  closest_mes :: "mes option"

text \<open>
  The globals of the host. \<open>TavernHelper_object r\<close>: an object whose
  \<^verbatim>\<open>refreshOneMessage\<close> is a function that returns or throws (\<open>r = Some out\<close>), or is no
  function (\<open>r = None\<close>); likewise \<^verbatim>\<open>emit\<close> of the event source, whose outcome may depend
  on the event name. \<open>EventTypes_object v\<close>: an object whose \<^verbatim>\<open>MESSAGE_UPDATED\<close> is
  \<open>v\<close>. A property of \<^verbatim>\<open>window\<close> is a function, another value, or cannot be read
  without an exception.
\<close>

datatype tavern_helper =
  TavernHelper_undefined | TavernHelper_null | TavernHelper_object "outcome option"

datatype event_source =
  EventSource_undefined | EventSource_null | EventSource_object "(js_value \<Rightarrow> outcome) option"

datatype event_types =
  EventTypes_undefined | EventTypes_null | EventTypes_object js_value

datatype global = GlobalFunction outcome | GlobalValue | GlobalThrows

record window =
  TavernHelper :: tavern_helper
  eventSource :: event_source
  event_types :: event_types
  ownProperties :: "(string \<times> global) list"

text \<open>An external call is recorded when it is attempted, whether it returns or throws.\<close>

datatype call =
  RefreshOneMessage js_value
| Emit js_value js_value
| DispatchEvent js_value
| GlobalCall string js_value
| Click string
| AppendChild nat

text \<open>
  The three timer callbacks of the userscript: the debounced evaluation, the delayed second
  attempt, and the removal of a marker.
\<close>

datatype callback = Evaluation | Retry | RemoveMarker nat

record 'cb browser =
  now :: nat
  next_handle :: nat
  timers :: "nat \<rightharpoonup> nat \<times> 'cb"
  trace :: "call list"

text \<open>
  Mutation records, as far as the two scripts read them, and the options of
  \<^verbatim>\<open>MutationObserver.observe\<close>. The browser queues a record for an observer only if the
  observer's options ask for records of that type.
\<close>

datatype mutation_type = ChildList | CharacterData | Attributes

record dom_node =
  is_element :: bool
  has_TH_render_class :: bool
  contains_TH_render :: bool

record mutation_record =
  mtype :: mutation_type
  addedNodes :: "dom_node list"
  removedNodes :: "dom_node list"

record observe_options =
  childList :: bool
  subtree :: bool
  characterData :: bool
  attributes :: bool

definition observed_by :: "observe_options \<Rightarrow> mutation_record \<Rightarrow> bool" where
  "observed_by opts m =
     (case mtype m of
        ChildList \<Rightarrow> childList opts
      | CharacterData \<Rightarrow> characterData opts
      | Attributes \<Rightarrow> attributes opts)"

text \<open>The options observeMesText of the userscript passes for a message text.\<close>

definition MESSAGE_OBSERVER_OPTIONS :: observe_options where
  "MESSAGE_OBSERVER_OPTIONS =
     \<lparr>childList = True, subtree = True, characterData = True, attributes = False\<rparr>"

text \<open>
  The page around one message text and the observer that observeMesText has attached to
  it: the browser state, the variable \<^verbatim>\<open>timer\<close> of the observer, the next node
  \<^verbatim>\<open>createElement\<close> hands out, the children of the message text, the records the browser
  has queued for the observer and not yet delivered, and two ghost lists: the message ids
  tryTriggerRerender was entered with, and the times at which the debounced evaluation ran.

  tryTriggerRerender is called from the timer callbacks of that observer only, so the
  message text it works on is observed whenever it runs: what the script itself inserts
  into the message text or removes from it is queued for its own observer.
\<close>

record page = "callback browser" +
  timer :: "nat option"
  next_node :: nat
  children :: "nat list"
  records :: "mutation_record list"
  invocations :: "js_value list"
  evaluations :: "nat list"

definition queue_record :: "mutation_record \<Rightarrow> page \<Rightarrow> page" where
  "queue_record m st =
     (if observed_by MESSAGE_OBSERVER_OPTIONS m then st\<lparr>records := records st @ [m]\<rparr> else st)"

text \<open>The hidden span of the last resort, as a node of a mutation record.\<close>

definition marker_node :: dom_node where
  "marker_node = \<lparr>is_element = True, has_TH_render_class = False, contains_TH_render = False\<rparr>"

text \<open>The page before the script has done anything; the browser hands out timer handles from 1.\<close>

definition initial_page :: page where
  "initial_page = \<lparr>now = 0, next_handle = 1, timers = Map.empty, trace = [], timer = None,
                    next_node = 0, children = [], records = [], invocations = [], evaluations = []\<rparr>"

definition setTimeout ::
  "'cb \<Rightarrow> nat \<Rightarrow> ('cb, 'a) browser_scheme \<Rightarrow> nat \<times> ('cb, 'a) browser_scheme" where
  "setTimeout cb delay st =
     (next_handle st,
      st\<lparr>next_handle := Suc (next_handle st),
         timers := (timers st)(next_handle st \<mapsto> (now st + delay, cb))\<rparr>)"

definition clearTimeout :: "nat \<Rightarrow> ('cb, 'a) browser_scheme \<Rightarrow> ('cb, 'a) browser_scheme" where
  "clearTimeout h st = st\<lparr>timers := (timers st)(h := None)\<rparr>"

text \<open>The handles of the timers that are due, oldest first.\<close>

definition is_due :: "nat \<Rightarrow> (nat \<times> 'cb) option \<Rightarrow> bool" where
  "is_due t entry = (case entry of Some (due, cb) \<Rightarrow> due \<le> t | None \<Rightarrow> False)"

definition due_handles :: "('cb, 'a) browser_scheme \<Rightarrow> nat list" where
  "due_handles st = filter (\<lambda>h. is_due (now st) (timers st h)) [0 ..< next_handle st]"

section \<open>Blocks, try and catch\<close>

text \<open>
  A block of statements ends by falling off its end, by \<^verbatim>\<open>return\<close>, or by an exception.
  Every \<^verbatim>\<open>catch\<close> of the script only logs, and \<^verbatim>\<open>log\<close> prints nothing
  (\<^verbatim>\<open>DEBUG = false\<close>).
\<close>

datatype 'a completion = Normal | Return 'a | Throw error

type_synonym ('a, 's) block = "'s \<Rightarrow> 'a completion \<times> 's"

definition skip :: "('a, 's) block" where
  "skip st = (Normal, st)"

definition ret :: "'a \<Rightarrow> ('a, 's) block" where
  "ret v st = (Return v, st)"

definition throw :: "error \<Rightarrow> ('a, 's) block" where
  "throw e st = (Throw e, st)"

definition seq :: "('a, 's) block \<Rightarrow> ('a, 's) block \<Rightarrow> ('a, 's) block" where
  "seq a b st = (case a st of (Normal, st') \<Rightarrow> b st' | r \<Rightarrow> r)"

definition try_catch :: "('a, 's) block \<Rightarrow> ('a, 's) block" where
  "try_catch body st = (case body st of (Throw e, st') \<Rightarrow> (Normal, st') | r \<Rightarrow> r)"

definition external :: "call \<Rightarrow> outcome \<Rightarrow> ('a, ('cb, 'b) browser_scheme) block" where
  "external c out st =
     (case out of Returns \<Rightarrow> Normal | Throws \<Rightarrow> Throw HostError,
      st\<lparr>trace := trace st @ [c]\<rparr>)"

section \<open>tryTriggerRerender\<close>

text \<open>
  Every call passes \<^verbatim>\<open>Number(messageId)\<close>; a recorded call keeps the message id it was
  computed from. On entry tryTriggerRerender adds its message id to the ghost list
  \<open>invocations\<close>.
\<close>

definition entered :: "js_value \<Rightarrow> (bool, page) block" where
  "entered messageId st = (Normal, st\<lparr>invocations := invocations st @ [messageId]\<rparr>)"

text \<open>Primary: \<^verbatim>\<open>TavernHelper.refreshOneMessage\<close> if available.\<close>

definition primary_TavernHelper :: "window \<Rightarrow> js_value \<Rightarrow> (bool, page) block" where
  "primary_TavernHelper w messageId =
     (case TavernHelper w of
        TavernHelper_undefined \<Rightarrow> skip
      | TavernHelper_null \<Rightarrow> throw TypeError
      | TavernHelper_object None \<Rightarrow> skip
      | TavernHelper_object (Some out) \<Rightarrow>
          seq (external (RefreshOneMessage messageId) out) (ret True))"

text \<open>Secondary: \<^verbatim>\<open>eventSource.emit\<close> under the known event type, or under guessed names.\<close>

definition emit ::
  "event_source \<Rightarrow> js_value \<Rightarrow> js_value \<Rightarrow> ('a, ('cb, 'b) browser_scheme) block" where
  "emit es name messageId =
     (case es of
        EventSource_object (Some f) \<Rightarrow> external (Emit name messageId) (f name)
      | _ \<Rightarrow> throw TypeError)"

definition candidates :: "string list" where
  "candidates = [''MESSAGE_UPDATED'', ''message_updated'', ''messageUpdated'',
                 ''MESSAGE:UPDATED'', ''render_message'', ''refresh_message'']"

fun emit_candidates :: "event_source \<Rightarrow> js_value \<Rightarrow> string list \<Rightarrow> (bool, page) block" where
  "emit_candidates es messageId [] st = skip st"
| "emit_candidates es messageId (name # rest) st =
     seq (try_catch (seq (emit es (Str name) messageId) (ret True)))
         (emit_candidates es messageId rest) st"

definition secondary_eventSource :: "window \<Rightarrow> js_value \<Rightarrow> (bool, page) block" where
  "secondary_eventSource w messageId =
     (case eventSource w of
        EventSource_undefined \<Rightarrow> skip
      | es \<Rightarrow>
         (case event_types w of
            EventTypes_object known \<Rightarrow>
              if truthy known then seq (emit es known messageId) (ret True)
              else emit_candidates es messageId candidates
          | _ \<Rightarrow> emit_candidates es messageId candidates))"

text \<open>Third: a CustomEvent dispatched on the message text.\<close>

definition third_CustomEvent :: "js_value \<Rightarrow> element option \<Rightarrow> (bool, page) block" where
  "third_CustomEvent messageId mesTextEl =
     (case mesTextEl of
        None \<Rightarrow> skip
      | Some el \<Rightarrow> seq (external (DispatchEvent messageId) (dispatchEvent el)) (ret True))"

text \<open>Fourth: global functions whose name contains \<^verbatim>\<open>message\<close> or \<^verbatim>\<open>refresh\<close>.\<close>

definition name_matches :: "string \<Rightarrow> bool" where
  "name_matches fnName =
     (str_includes (toLowerCase fnName) ''message'' \<or> str_includes (toLowerCase fnName) ''refresh'')"

fun try_globals :: "(string \<times> global) list \<Rightarrow> js_value \<Rightarrow> (bool, page) block" where
  "try_globals [] messageId st = skip st"
| "try_globals ((fnName, g) # rest) messageId st =
     (if \<not> name_matches fnName then try_globals rest messageId st
      else case g of
             GlobalThrows \<Rightarrow> throw HostError st
           | GlobalValue \<Rightarrow> try_globals rest messageId st
           | GlobalFunction out \<Rightarrow>
               seq (try_catch (seq (external (GlobalCall fnName messageId) out) (ret True)))
                   (try_globals rest messageId) st)"

definition fourth_global_functions :: "window \<Rightarrow> js_value \<Rightarrow> (bool, page) block" where
  "fourth_global_functions w messageId = try_globals (ownProperties w) messageId"

text \<open>Fifth: a click on a button whose label matches a render-trigger phrase.\<close>

definition possibleButtonTexts :: "string list" where
  "possibleButtonTexts =
     [[CHR 0xE6, CHR 0xB8, CHR 0xB2, CHR 0xE6, CHR 0x9F, CHR 0x93, CHR 0xE5, CHR 0x89, CHR 0x8D,
       CHR 0xE7, CHR 0xAB, CHR 0xAF, CHR 0xE7, CHR 0x95, CHR 0x8C, CHR 0xE9, CHR 0x9D, CHR 0xA2],
      ''Render frontend'',
      ''Render'',
      [CHR 0xE6, CHR 0x98, CHR 0xBE, CHR 0xE7, CHR 0xA4, CHR 0xBA, CHR 0xE5, CHR 0x89, CHR 0x8D,
       CHR 0xE7, CHR 0xAB, CHR 0xAF, CHR 0xE4, CHR 0xBB, CHR 0xA3, CHR 0xE7, CHR 0xA0, CHR 0x81,
       CHR 0xE5, CHR 0x9D, CHR 0x97],
      [CHR 0xE6, CHR 0x98, CHR 0xBE, CHR 0xE7, CHR 0xA4, CHR 0xBA, CHR 0xE5, CHR 0x89, CHR 0x8D,
       CHR 0xE7, CHR 0xAB, CHR 0xAF],
      ''render front'',
      ''Render code'']"

fun click_if_match :: "button \<Rightarrow> string \<Rightarrow> string list \<Rightarrow> (bool, page) block" where
  "click_if_match btn txt [] st = skip st"
| "click_if_match btn txt (candidate # rest) st =
     (if str_includes txt candidate \<or> str_includes candidate txt
      then seq (external (Click txt) (click btn)) (ret True) st
      else click_if_match btn txt rest st)"

fun click_buttons :: "button list \<Rightarrow> (bool, page) block" where
  "click_buttons [] st = skip st"
| "click_buttons (btn # rest) st =
     (let txt = trim (text_or_empty (btn_textContent btn))
      in if txt = [] then click_buttons rest st
         else seq (click_if_match btn txt possibleButtonTexts) (click_buttons rest) st)"

definition fifth_render_buttons :: "element option \<Rightarrow> (bool, page) block" where
  "fifth_render_buttons mesTextEl =
     (case mesTextEl of None \<Rightarrow> skip | Some el \<Rightarrow> click_buttons (buttons el))"

text \<open>
  Last resort: a hidden span appended to the message text, and its removal 300 ms later.
  \<^verbatim>\<open>document.createElement\<close> takes the next free node. When \<^verbatim>\<open>appendChild\<close> returns, the
  span is a child of the message text and the browser has queued the insertion for the
  observer of the message text.
\<close>

definition last_resort_marker :: "element option \<Rightarrow> (bool, page) block" where
  "last_resort_marker mesTextEl st =
     (case mesTextEl of
        None \<Rightarrow> (Normal, st)
      | Some el \<Rightarrow>
          (let marker = next_node st;
               st1 = st\<lparr>next_node := Suc marker\<rparr>
           in case external (AppendChild marker) (appendChild el) st1 of
                (Normal, st2) \<Rightarrow>
                  (let st3 = queue_record
                               \<lparr>mtype = ChildList, addedNodes = [marker_node], removedNodes = []\<rparr>
                               (st2\<lparr>children := children st2 @ [marker]\<rparr>);
                       (h, st4) = setTimeout (RemoveMarker marker) 300 st3
                   in (Return True, st4))
              | r \<Rightarrow> r))"

definition tryTriggerRerender ::
  "window \<Rightarrow> js_value \<Rightarrow> element option \<Rightarrow> (bool, page) block" where
  "tryTriggerRerender w messageId mesTextEl =
     seq (entered messageId)
    (seq (try_catch (primary_TavernHelper w messageId))
    (seq (try_catch (secondary_eventSource w messageId))
    (seq (try_catch (third_CustomEvent messageId mesTextEl))
    (seq (try_catch (fourth_global_functions w messageId))
    (seq (try_catch (fifth_render_buttons mesTextEl))
    (seq (try_catch (last_resort_marker mesTextEl))
         (ret False)))))))"

section \<open>The userscript observer of one message text\<close>

definition DEBOUNCE_MS :: nat where
  "DEBOUNCE_MS = 120"

definition isPreRendered :: "pre option \<Rightarrow> bool" where
  "isPreRendered preEl =
     (case preEl of
        None \<Rightarrow> False
      | Some p \<Rightarrow>
         (case parentElement p of
            None \<Rightarrow> False
          | Some parent \<Rightarrow>
              if ''TH-render'' \<in> set (classList parent) then parent_has_iframe parent
              else False))"

text \<open>The quick filter of the observer callback, a loop left at the first significant record.\<close>

fun significant :: "mutation_record list \<Rightarrow> bool" where
  "significant [] = False"
| "significant (m # ms) =
     (case mtype m of
        ChildList \<Rightarrow>
          if length (addedNodes m) > 0 \<or> length (removedNodes m) > 0 then True
          else significant ms
      | CharacterData \<Rightarrow> True
      | Attributes \<Rightarrow> True)"

text \<open>
  The observer callback: \<^verbatim>\<open>if (!significant) return; if (timer) clearTimeout(timer);
  timer = setTimeout(..., DEBOUNCE_MS)\<close>.
\<close>

definition mutation_callback :: "mutation_record list \<Rightarrow> page \<Rightarrow> page" where
  "mutation_callback mutations st =
     (if \<not> significant mutations then st
      else
        let st1 = (case timer st of
                     None \<Rightarrow> st
                   | Some h \<Rightarrow> if h \<noteq> 0 then clearTimeout h st else st);
            (h, st2) = setTimeout Evaluation DEBOUNCE_MS st1
        in st2\<lparr>timer := Some h\<rparr>)"

text \<open>
  The loop over the \<^verbatim>\<open>pre\<close> blocks of the message text, with its two flags
  \<open>(foundFrontend, needsRender)\<close>.
\<close>

fun scan_pres :: "pre list \<Rightarrow> bool \<times> bool \<Rightarrow> error + bool \<times> bool" where
  "scan_pres [] flags = Inr flags"
| "scan_pres (p # ps) (foundFrontend, needsRender) =
     (case isFrontend (Str (trim (text_or_empty (pre_textContent p)))) of
        Inl e \<Rightarrow> Inl e
      | Inr False \<Rightarrow> scan_pres ps (foundFrontend, needsRender)
      | Inr True \<Rightarrow>
          if \<not> isPreRendered (Some p) then Inr (True, True)
          else scan_pres ps (True, needsRender))"

text \<open>
  The debounced evaluation, the body of the timer callback. \<open>evaluations\<close> is a ghost
  list of the times at which it ran.
\<close>

definition evaluation :: "window \<Rightarrow> js_value \<Rightarrow> element \<Rightarrow> (unit, page) block" where
  "evaluation w messageId mesTextEl st =
     (let st0 = st\<lparr>timer := None, evaluations := evaluations st @ [now st]\<rparr>
      in case scan_pres (pres mesTextEl) (False, False) of
           Inl e \<Rightarrow> (Throw e, st0)
         | Inr (foundFrontend, needsRender) \<Rightarrow>
             if \<not> foundFrontend then (Return (), st0)
             else if \<not> needsRender then (Return (), st0)
             else
               (case tryTriggerRerender w messageId (Some mesTextEl) st0 of
                  (Return True, st1) \<Rightarrow> (Normal, st1)
                | (Throw e, st1) \<Rightarrow> (Throw e, st1)
                | (r, st1) \<Rightarrow> (Normal, snd (setTimeout Retry 250 st1))))"

text \<open>
  Timers. The host and the message text are read when a callback runs: \<open>env t\<close> is the
  window and the message text at time \<open>t\<close>. An exception that leaves a timer callback is
  reported by the browser and goes no further. \<^verbatim>\<open>marker.remove()\<close> takes the marker out
  of the message text if it is a child of it, and the browser queues the removal for the
  observer.
\<close>

definition run_callback ::
  "(nat \<Rightarrow> window \<times> element) \<Rightarrow> js_value \<Rightarrow> callback \<Rightarrow> page \<Rightarrow> page" where
  "run_callback env messageId cb st =
     (case cb of
        Evaluation \<Rightarrow>
          snd (evaluation (fst (env (now st))) messageId (snd (env (now st))) st)
      | Retry \<Rightarrow>
          snd (tryTriggerRerender (fst (env (now st))) messageId (Some (snd (env (now st)))) st)
      | RemoveMarker marker \<Rightarrow>
          if marker \<in> set (children st)
          then queue_record \<lparr>mtype = ChildList, addedNodes = [], removedNodes = [marker_node]\<rparr>
                 (st\<lparr>children := removeAll marker (children st)\<rparr>)
          else st)"

text \<open>
  When a callback has ended, the browser hands the records queued for the observer to the
  observer's callback, if there are any.
\<close>

definition deliver :: "page \<Rightarrow> page" where
  "deliver st =
     (if records st = [] then st else mutation_callback (records st) (st\<lparr>records := []\<rparr>))"

fun fire_all ::
  "(nat \<Rightarrow> window \<times> element) \<Rightarrow> js_value \<Rightarrow> nat list \<Rightarrow> page \<Rightarrow> page" where
  "fire_all env messageId [] st = st"
| "fire_all env messageId (h # rest) st =
     fire_all env messageId rest
       (case timers st h of
          None \<Rightarrow> st
        | Some (due, cb) \<Rightarrow> deliver (run_callback env messageId cb (clearTimeout h st)))"

text \<open>One millisecond passes, and every timer that is due runs, oldest first.\<close>

definition tick :: "(nat \<Rightarrow> window \<times> element) \<Rightarrow> js_value \<Rightarrow> page \<Rightarrow> page" where
  "tick env messageId st =
     (let st1 = st\<lparr>now := Suc (now st)\<rparr>
      in fire_all env messageId (due_handles st1) st1)"

text \<open>
  Changes made to the message text by others: the browser queues those the observer's
  options ask for, and calls the observer only with a non-empty queue.
\<close>

definition notify :: "observe_options \<Rightarrow> mutation_record list \<Rightarrow> page \<Rightarrow> page" where
  "notify opts changes st =
     (let records = filter (observed_by opts) changes
      in if records = [] then st else mutation_callback records st)"

section \<open>observeMesText\<close>

record observer =
  target :: nat
  options :: observe_options
  observer_messageId :: js_value

record state =
  observers :: "observer list"
  observed :: "nat set"

definition observeMesText :: "element option \<Rightarrow> state \<Rightarrow> state" where
  "observeMesText mesTextEl state =
     (case mesTextEl of
        None \<Rightarrow> state
      | Some el \<Rightarrow>
          if node_id el \<in> observed state then state
          else
            let state1 = state\<lparr>observed := insert (node_id el) (observed state)\<rparr>
            in case closest_mes el of
                 None \<Rightarrow> state1
               | Some mesEl \<Rightarrow>
                   let messageId = js_or (js_or (mesid mesEl) (data_mesid mesEl)) (data_id mesEl);
                       mo = \<lparr>target = node_id el, options = MESSAGE_OBSERVER_OPTIONS,
                             observer_messageId = messageId\<rparr>
                   in state1\<lparr>observers := observers state1 @ [mo]\<rparr>)"

section \<open>The v3 variant\<close>

text \<open>
  In v3 the set of observed elements and the table of debounce timers, keyed by message id,
  are shared by all observers that \<^verbatim>\<open>setupObservers\<close> creates. A timer callback holds the
  message text it was created for; the message id it was stored under is kept beside it.

  The table is a plain object, \<^verbatim>\<open>const debounceTimers = {}\<close>; the model keeps its own
  properties. Reading a key that is no own property finds the property of that name of
  \<^verbatim>\<open>Object.prototype\<close>, if there is one: a function, or for \<^verbatim>\<open>__proto__\<close> the prototype
  itself. Assigning a timer handle to a key makes an own property, except for
  \<^verbatim>\<open>__proto__\<close>, whose setter ignores a value that is no object.
\<close>

datatype callback_v3 = Evaluation_v3 nat string

record page_v3 = "callback_v3 browser" +
  observedElements :: "nat set"
  attached :: "(nat \<times> observe_options) list"
  debounceTimers :: "string \<Rightarrow> nat option"
  evaluations_v3 :: "(nat \<times> string) list"





definition getMessageId :: "element \<Rightarrow> js_value" where
  "getMessageId el = (case closest_mes el of Some mesEl \<Rightarrow> mesid mesEl | None \<Rightarrow> Null)"

definition triggerPartialRender :: "window \<Rightarrow> element \<Rightarrow> (unit, page_v3) block" where
  "triggerPartialRender w mesTextEl =
     (let messageId = getMessageId mesTextEl
      in if \<not> truthy messageId then ret ()
         else if eventSource w \<noteq> EventSource_undefined \<and> event_types w \<noteq> EventTypes_undefined
         then (case event_types w of
                 EventTypes_object known \<Rightarrow> emit (eventSource w) known messageId
               | _ \<Rightarrow> throw TypeError)
         else skip)"


definition evaluation_v3 :: "window \<Rightarrow> element \<Rightarrow> string \<Rightarrow> (unit, page_v3) block" where
  "evaluation_v3 w mesTextEl key st =
     (let st0 = st\<lparr>evaluations_v3 := evaluations_v3 st @ [(now st, key)]\<rparr>
      in if contains_iframe mesTextEl then (Return (), st0)
         else
           let code = text_or_empty (case pres mesTextEl of [] \<Rightarrow> Undefined
                                     | p # ps \<Rightarrow> pre_textContent p)
           in case isFrontend_v3 (Str code) of
                Inl e \<Rightarrow> (Throw e, st0)
              | Inr True \<Rightarrow> triggerPartialRender w mesTextEl st0
              | Inr False \<Rightarrow> (Normal, st0))"


text \<open>
  \<^verbatim>\<open>if (observedElements.has(mesTextEl)) return; observedElements.has(mesTextEl);\<close>
  The second statement reads the set again and writes nothing.
\<close>

definition observeMesText_v3 :: "element \<Rightarrow> page_v3 \<Rightarrow> page_v3" where
  "observeMesText_v3 mesTextEl st =
     (if node_id mesTextEl \<in> observedElements st then st
      else
        let unused = (node_id mesTextEl \<in> observedElements st)
        in st\<lparr>attached := attached st
                 @ [(node_id mesTextEl,
                     \<lparr>childList = True, subtree = True, characterData = False, attributes = False\<rparr>)]\<rparr>)"




section \<open>Vocabulary of the results\<close>

text \<open>
  The definitions from here on are not translated from the source: they name what the
  results below say about it.

  The six strategies of tryTriggerRerender, in the order the specification gives them.
\<close>

definition strategies ::
  "window \<Rightarrow> js_value \<Rightarrow> element option \<Rightarrow> (bool, page) block list" where
  "strategies w messageId mesTextEl =
     [primary_TavernHelper w messageId,
      secondary_eventSource w messageId,
      third_CustomEvent messageId mesTextEl,
      fourth_global_functions w messageId,
      fifth_render_buttons mesTextEl,
      last_resort_marker mesTextEl]"

text \<open>
  The specification's cascade: attempt the strategies in order and stop at the first one
  that ends with \<^verbatim>\<open>return true\<close>; a strategy that throws, or that finds nothing to do, hands
  over to the next one; when none is left, the answer is false.
\<close>

fun first_success :: "(bool, 's) block list \<Rightarrow> (bool, 's) block" where
  "first_success [] st = (Return False, st)"
| "first_success (s # rest) st =
     (case s st of
        (Return True, st') \<Rightarrow> (Return True, st')
      | (r, st') \<Rightarrow> first_success rest st')"

text \<open>The strategy that makes a given external call.\<close>

fun strategy_of :: "call \<Rightarrow> nat" where
  "strategy_of (RefreshOneMessage m) = 1"
| "strategy_of (Emit n m) = 2"
| "strategy_of (DispatchEvent m) = 3"
| "strategy_of (GlobalCall f m) = 4"
| "strategy_of (Click t) = 5"
| "strategy_of (AppendChild n) = 6"

text \<open>
  Three properties of a block: it never ends with \<^verbatim>\<open>return false\<close>; how it ends does not
  depend on the page; the calls it records all belong to strategy \<open>k\<close>.
\<close>

definition never_false :: "(bool, 's) block \<Rightarrow> bool" where
  "never_false b \<longleftrightarrow> (\<forall>st. fst (b st) \<noteq> Return False)"

definition steady :: "('a, 's) block \<Rightarrow> bool" where
  "steady b \<longleftrightarrow> (\<forall>st st'. fst (b st) = fst (b st'))"

definition appends :: "nat \<Rightarrow> ('a, page) block \<Rightarrow> bool" where
  "appends k b \<longleftrightarrow>
     (\<forall>st. \<exists>calls. trace (snd (b st)) = trace st @ calls \<and> (\<forall>c \<in> set calls. strategy_of c = k))"

text \<open>A button label matches when it is not empty and one of it and a known phrase contains the other.\<close>

definition label_matches :: "button \<Rightarrow> bool" where
  "label_matches btn =
     (let txt = trim (text_or_empty (btn_textContent btn))
      in txt \<noteq> [] \<and> list_ex (\<lambda>candidate. str_includes txt candidate \<or> str_includes candidate txt)
                        possibleButtonTexts)"

text \<open>
  What a strategy leaves alone: the clock, the observer's timer variable, the ghost lists,
  and every timer already pending. A timer it adds removes a marker 300 ms later and takes
  a fresh handle.
\<close>

definition frame :: "('a, page) block \<Rightarrow> bool" where
  "frame b \<longleftrightarrow>
     (\<forall>st. now (snd (b st)) = now st
        \<and> timer (snd (b st)) = timer st
        \<and> evaluations (snd (b st)) = evaluations st
        \<and> invocations (snd (b st)) = invocations st
        \<and> next_handle st \<le> next_handle (snd (b st))
        \<and> (\<forall>h. timers (snd (b st)) h = timers st h
              \<or> (next_handle st \<le> h \<and> h < next_handle (snd (b st))
                  \<and> (\<exists>marker. timers (snd (b st)) h
                                  = Some (now st + 300, RemoveMarker marker)))))"

definition is_frontend_pre :: "pre \<Rightarrow> bool" where
  "is_frontend_pre p = (isFrontend (Str (trim (text_or_empty (pre_textContent p)))) = Inr True)"

text \<open>A block that changes nothing on the page but the list of recorded calls.\<close>

definition only_calls :: "('a, page) block \<Rightarrow> bool" where
  "only_calls b \<longleftrightarrow> (\<forall>st. \<exists>calls. snd (b st) = st\<lparr>trace := trace st @ calls\<rparr>)"

text \<open>
  The strategies before the last resort, and whether one of them ends with
  \<^verbatim>\<open>return true\<close>: none of them reads the page state, so they are tried on the initial page.
\<close>

definition earlier_strategies ::
  "window \<Rightarrow> js_value \<Rightarrow> element option \<Rightarrow> (bool, page) block list" where
  "earlier_strategies w messageId mesTextEl =
     [primary_TavernHelper w messageId,
      secondary_eventSource w messageId,
      third_CustomEvent messageId mesTextEl,
      fourth_global_functions w messageId,
      fifth_render_buttons mesTextEl]"

subsection \<open>Invariants\<close>

text \<open>Every active timer has a handle that was handed out, and no handle is 0.\<close>

definition wf_timers :: "('cb, 'a) browser_scheme \<Rightarrow> bool" where
  "wf_timers st \<longleftrightarrow>
     0 < next_handle st \<and> (\<forall>h. timers st h \<noteq> None \<longrightarrow> 0 < h \<and> h < next_handle st)"

text \<open>In the userscript, no element has two observers, and an element that has one is in the set.\<close>

definition at_most_one_observer :: "state \<Rightarrow> bool" where
  "at_most_one_observer s \<longleftrightarrow>
     (\<forall>node. length (filter (\<lambda>mo. target mo = node) (observers s)) \<le> 1
        \<and> (node \<notin> observed s \<longrightarrow> filter (\<lambda>mo. target mo = node) (observers s) = []))"

text \<open>
  The state of the debounce of one observer. \<open>timers_ok\<close>: the timers are well formed, and
  a timer that runs the evaluation is pending exactly when the observer's variable
  \<open>timer\<close> holds its handle. \<open>pending_evaluation\<close> is the time at which that timer is due.
\<close>

definition timers_ok :: "page \<Rightarrow> bool" where
  "timers_ok st \<longleftrightarrow>
     wf_timers st
     \<and> (case timer st of
          None \<Rightarrow> (\<forall>h due. timers st h \<noteq> Some (due, Evaluation))
        | Some h0 \<Rightarrow>
            (\<exists>due. timers st h0 = Some (due, Evaluation))
            \<and> (\<forall>h due. timers st h = Some (due, Evaluation) \<longrightarrow> h = h0))"

definition pending_evaluation :: "page \<Rightarrow> nat option" where
  "pending_evaluation st =
     (case timer st of
        None \<Rightarrow> None
      | Some h \<Rightarrow> (case timers st h of Some (due, cb) \<Rightarrow> Some due | None \<Rightarrow> None))"

text \<open>
  A step from \<open>s\<close> to \<open>s'\<close> that keeps the clock and every pending timer, and adds only
  timers that do not run the evaluation, under fresh handles.
\<close>

definition adds_no_evaluation :: "page \<Rightarrow> page \<Rightarrow> bool" where
  "adds_no_evaluation s s' \<longleftrightarrow>
     now s' = now s \<and> next_handle s \<le> next_handle s'
     \<and> (\<forall>h. timers s' h = timers s h
            \<or> (next_handle s \<le> h \<and> h < next_handle s'
                \<and> (\<exists>due cb. timers s' h = Some (due, cb) \<and> cb \<noteq> Evaluation)))"


definition calm :: "page \<Rightarrow> bool" where
  "calm st \<longleftrightarrow>
     timers_ok st \<and> records st = []
     \<and> (\<forall>h due cb. timers st h = Some (due, cb) \<longrightarrow> cb = Evaluation)"







subsection \<open>Examples\<close>

text \<open>Pages, hosts and message texts on which the results are evaluated.\<close>

definition demo_window :: window where
  "demo_window =
     \<lparr>TavernHelper = TavernHelper_object (Some Throws),
      eventSource = EventSource_null,
      event_types = EventTypes_undefined,
      ownProperties = [(''postMessage'', GlobalFunction Throws), (''name'', GlobalValue),
                       (''refreshAll'', GlobalFunction Returns)]\<rparr>"

definition event_bus_window :: window where
  "event_bus_window =
     \<lparr>TavernHelper = TavernHelper_undefined,
      eventSource = EventSource_object
                      (Some (\<lambda>name. if name = Str ''message_updated'' then Returns else Throws)),
      event_types = EventTypes_undefined,
      ownProperties = []\<rparr>"

definition demo_element :: element where
  "demo_element =
     \<lparr>node_id = 7, dispatchEvent = Throws, appendChild = Returns,
      buttons = [\<lparr>btn_textContent = Str ''  Render  '', click = Returns\<rparr>],
      pres = [], contains_iframe = False, closest_mes = None\<rparr>"

definition hostile_window :: window where
  "hostile_window =
     \<lparr>TavernHelper = TavernHelper_null,
      eventSource = EventSource_object (Some (\<lambda>name. Throws)),
      event_types = EventTypes_null,
      ownProperties = [(''sendMessage'', GlobalFunction Throws), (''onmessage'', GlobalThrows)]\<rparr>"

definition hostile_element :: element where
  "hostile_element =
     \<lparr>node_id = 7, dispatchEvent = Throws, appendChild = Throws,
      buttons = [\<lparr>btn_textContent = Str ''Render code'', click = Throws\<rparr>],
      pres = [], contains_iframe = False, closest_mes = None\<rparr>"

definition rendered_pre :: pre where
  "rendered_pre =
     \<lparr>pre_textContent = Str ''<html><body>A</body></html>'',
      parentElement = Some \<lparr>classList = [''TH-render''], parent_has_iframe = True\<rparr>\<rparr>"

definition bare_pre :: pre where
  "bare_pre =
     \<lparr>pre_textContent = Str ''<html><body>B</body></html>'',
      parentElement = Some \<lparr>classList = [''mes_text''], parent_has_iframe = False\<rparr>\<rparr>"

definition two_block_message :: element where
  "two_block_message =
     \<lparr>node_id = 7, dispatchEvent = Returns, appendChild = Returns, buttons = [],
      pres = [rendered_pre, bare_pre], contains_iframe = True, closest_mes = None\<rparr>"

definition bare_window :: window where
  "bare_window =
     \<lparr>TavernHelper = TavernHelper_undefined, eventSource = EventSource_undefined,
      event_types = EventTypes_undefined, ownProperties = []\<rparr>"

definition stubborn_message :: element where
  "stubborn_message =
     \<lparr>node_id = 7, dispatchEvent = Throws, appendChild = Throws, buttons = [],
      pres = [bare_pre], contains_iframe = False, closest_mes = None\<rparr>"

definition initial_page_v3 :: page_v3 where
  "initial_page_v3 =
     \<lparr>now = 0, next_handle = 1, timers = Map.empty, trace = [], observedElements = {},
      attached = [], debounceTimers = Map.empty, evaluations_v3 = []\<rparr>"

definition attribute_change :: mutation_record where
  "attribute_change = \<lparr>mtype = Attributes, addedNodes = [], removedNodes = []\<rparr>"

definition childlist_change :: mutation_record where
  "childlist_change =
     \<lparr>mtype = ChildList, addedNodes = [],
      removedNodes = [\<lparr>is_element = True, has_TH_render_class = True, contains_TH_render = False\<rparr>]\<rparr>"






definition nudged_message :: element where
  "nudged_message =
     \<lparr>node_id = 7, dispatchEvent = Throws, appendChild = Returns, buttons = [],
      pres = [bare_pre], contains_iframe = False,
      closest_mes = Some \<lparr>mesid = Str ''12'', data_mesid = Null, data_id = Null\<rparr>\<rparr>"

definition nudged_env :: "nat \<Rightarrow> window \<times> element" where
  "nudged_env t = (bare_window, nudged_message)"

definition nudged_page :: page where
  "nudged_page = mutation_callback [childlist_change] initial_page"





text \<open>A button whose label is \<^verbatim>\<open>Rend\<close> after a no-break space and before a line separator.\<close>

definition padded_element :: element where
  "padded_element =
     \<lparr>node_id = 7, dispatchEvent = Throws, appendChild = Returns,
      buttons = [\<lparr>btn_textContent = Str ([CHR 0xC2, CHR 0xA0] @ ''Rend''
                                           @ [CHR 0xE2, CHR 0x80, CHR 0xA8]),
                  click = Returns\<rparr>],
      pres = [], contains_iframe = False, closest_mes = None\<rparr>"

section \<open>Front-end detection: results\<close>

lemma str_includes_iff: "str_includes s t \<longleftrightarrow> (\<exists>p q. s = p @ t @ q)"
proof (induction s)
  case Nil
  show ?case by auto
next
  case (Cons c cs)
  have "(\<exists>p q. c # cs = p @ t @ q) \<longleftrightarrow> (\<exists>q. c # cs = t @ q) \<or> (\<exists>p q. cs = p @ t @ q)"
  proof
    assume "\<exists>p q. c # cs = p @ t @ q"
    then obtain p q where pq: "c # cs = p @ t @ q" by blast
    show "(\<exists>q. c # cs = t @ q) \<or> (\<exists>p q. cs = p @ t @ q)"
    proof (cases p)
      case Nil
      with pq show ?thesis by auto
    next
      case (Cons a p')
      with pq have "cs = p' @ t @ q" by simp
      then show ?thesis by blast
    qed
  next
    assume "(\<exists>q. c # cs = t @ q) \<or> (\<exists>p q. cs = p @ t @ q)"
    then show "\<exists>p q. c # cs = p @ t @ q"
    proof
      assume "\<exists>q. c # cs = t @ q"
      then obtain q where "c # cs = [] @ t @ q" by auto
      then show ?thesis by blast
    next
      assume "\<exists>p q. cs = p @ t @ q"
      then obtain p q where "c # cs = (c # p) @ t @ q" by auto
      then show ?thesis by blast
    qed
  qed
  then show ?case
    by (simp add: Cons.IH prefix_def)
qed

lemma markers_ex_iff:
  "list_ex (\<lambda>tag. str_includes s tag) FRONTEND_MARKERS
     \<longleftrightarrow> (\<exists>tag \<in> set FRONTEND_MARKERS. \<exists>p q. s = p @ tag @ q)"
  by (simp add: list_ex_iff str_includes_iff)

text \<open>
  Claim C3, as stated: for every string content, isFrontend answers true exactly when the
  content contains one of \<^verbatim>\<open>html>\<close>, \<^verbatim>\<open><head>\<close>, \<^verbatim>\<open><body\<close>. The userscript breaks it:
  \<^verbatim>\<open><BODY>\<close> contains none of the three, and the userscript answers true.
\<close>

theorem isFrontend_exact_match_counterexample:
  "isFrontend (Str ''<BODY>'') = Inr True
   \<and> \<not> str_includes ''<BODY>'' ''html>''
   \<and> \<not> str_includes ''<BODY>'' ''<head>''
   \<and> \<not> str_includes ''<BODY>'' ''<body''"
  by (simp add: isFrontend_def FRONTEND_MARKERS_def toLowerCase_def)

text \<open>
  Claim C3, amended: for every string content, the v3 isFrontend answers true exactly when
  the content contains one of the three markers, and the userscript isFrontend answers true
  exactly when the lowercased content contains one of them; otherwise each answers false.
\<close>

theorem isFrontend_markers:
  "isFrontend_v3 (Str s)
     = Inr (\<exists>tag \<in> set FRONTEND_MARKERS. \<exists>p q. s = p @ tag @ q)
   \<and> isFrontend (Str s)
     = Inr (\<exists>tag \<in> set FRONTEND_MARKERS. \<exists>p q. toLowerCase s = p @ tag @ q)"
proof
  have "list_ex (\<lambda>tag. str_includes s tag) [''html>'', ''<head>'', ''<body'']
          = (\<exists>tag \<in> set FRONTEND_MARKERS. \<exists>p q. s = p @ tag @ q)"
    using markers_ex_iff [of s] by (simp only: FRONTEND_MARKERS_def)
  then show "isFrontend_v3 (Str s)
     = Inr (\<exists>tag \<in> set FRONTEND_MARKERS. \<exists>p q. s = p @ tag @ q)"
    by (simp only: isFrontend_v3_def js_value.case)
next
  show "isFrontend (Str s)
     = Inr (\<exists>tag \<in> set FRONTEND_MARKERS. \<exists>p q. toLowerCase s = p @ tag @ q)"
  proof (cases "s = []")
    case True
    then show ?thesis
      by (simp add: isFrontend_def toLowerCase_def FRONTEND_MARKERS_def)
  next
    case False
    then show ?thesis
      using markers_ex_iff [of "toLowerCase s"] by (simp add: isFrontend_def)
  qed
qed

theorem isFrontend_markers_witness:
  "isFrontend_v3 (Str ''<BODY><body>'') = Inr True
   \<and> isFrontend_v3 (Str ''<BODY>'') = Inr False
   \<and> isFrontend (Str ''<BODY>'') = Inr True
   \<and> isFrontend (Str ''plain text'') = Inr False"
proof -
  have a: "isFrontend_v3 (Str ''<BODY><body>'') = Inr True"
    using isFrontend_markers [of "''<BODY><body>''"]
    by (simp add: isFrontend_v3_def)
  have b: "isFrontend_v3 (Str ''<BODY>'') = Inr False"
    using isFrontend_markers [of "''<BODY>''"]
    by (simp add: isFrontend_v3_def)
  have c: "isFrontend (Str ''<BODY>'') = Inr True"
    using isFrontend_markers [of "''<BODY>''"]
    by (simp add: isFrontend_def FRONTEND_MARKERS_def toLowerCase_def)
  have d: "isFrontend (Str ''plain text'') = Inr False"
    using isFrontend_markers [of "''plain text''"]
    by (simp add: isFrontend_def FRONTEND_MARKERS_def toLowerCase_def)
  from a b c d show ?thesis by simp
qed

text \<open>
  Claim C9: the userscript isFrontend lowercases the content before it looks for the
  markers, so every content whose lowercasing contains one of them is classified as
  front-end code; null, undefined and the empty string give false; and no input makes
  it throw.
\<close>

theorem isFrontend_userscript_case_insensitive:
  "((\<exists>tag \<in> set FRONTEND_MARKERS. \<exists>p q. toLowerCase s = p @ tag @ q)
      \<longrightarrow> isFrontend (Str s) = Inr True)
   \<and> isFrontend Null = Inr False
   \<and> isFrontend Undefined = Inr False
   \<and> isFrontend (Str []) = Inr False
   \<and> (\<exists>b. isFrontend content = Inr b)"
proof -
  have 1: "(\<exists>tag \<in> set FRONTEND_MARKERS. \<exists>p q. toLowerCase s = p @ tag @ q)
      \<longrightarrow> isFrontend (Str s) = Inr True"
  proof
    assume h: "\<exists>tag \<in> set FRONTEND_MARKERS. \<exists>p q. toLowerCase s = p @ tag @ q"
    then have "list_ex (\<lambda>tag. str_includes (toLowerCase s) tag) FRONTEND_MARKERS"
      by (simp only: markers_ex_iff)
    moreover have "s \<noteq> []"
      using h by (auto simp: toLowerCase_def FRONTEND_MARKERS_def)
    ultimately show "isFrontend (Str s) = Inr True"
      by (simp add: isFrontend_def)
  qed
  have 2: "\<exists>b. isFrontend content = Inr b"
    by (cases content) (auto simp: isFrontend_def)
  from 1 2 show ?thesis
    by (simp add: isFrontend_def)
qed

theorem isFrontend_userscript_case_insensitive_witness:
  "(\<exists>tag \<in> set FRONTEND_MARKERS. \<exists>p q. toLowerCase ''<BODY>'' = p @ tag @ q)
   \<and> isFrontend (Str ''<BODY>'') = Inr True"
proof -
  have "str_includes (toLowerCase ''<BODY>'') ''<body''"
    by (simp add: toLowerCase_def)
  then have "\<exists>p q. toLowerCase ''<BODY>'' = p @ ''<body'' @ q"
    by (simp only: str_includes_iff)
  then have h: "\<exists>tag \<in> set FRONTEND_MARKERS. \<exists>p q. toLowerCase ''<BODY>'' = p @ tag @ q"
    by (simp add: FRONTEND_MARKERS_def)
  with isFrontend_userscript_case_insensitive [of "''<BODY>''" Null]
  show ?thesis by blast
qed

section \<open>Blocks\<close>

lemma fst_seq:
  "fst (seq a b st) = (case fst (a st) of Normal \<Rightarrow> fst (b (snd (a st))) | r \<Rightarrow> r)"
  by (simp add: seq_def split: prod.splits completion.splits)

lemma snd_seq:
  "snd (seq a b st) = (case fst (a st) of Normal \<Rightarrow> snd (b (snd (a st))) | r \<Rightarrow> snd (a st))"
  by (simp add: seq_def split: prod.splits completion.splits)

lemma fst_try_catch:
  "fst (try_catch a st) = (case fst (a st) of Throw e \<Rightarrow> Normal | r \<Rightarrow> r)"
  by (simp add: try_catch_def split: prod.splits completion.splits)

lemma snd_try_catch: "snd (try_catch a st) = snd (a st)"
  by (simp add: try_catch_def split: prod.splits completion.splits)

lemma never_false_basic:
  "never_false skip" "never_false (ret True)" "never_false (throw e)"
  "never_false (external c out)"
  by (simp_all add: never_false_def skip_def ret_def throw_def external_def split: outcome.splits)

lemma never_false_seq:
  assumes "never_false a" "never_false b"
  shows "never_false (seq a b)"
  unfolding never_false_def
proof
  fix st
  have a: "fst (a st) \<noteq> Return False" using assms(1) by (simp add: never_false_def)
  show "fst (seq a b st) \<noteq> Return False"
  proof (cases "fst (a st)")
    case Normal
    then show ?thesis using assms(2) by (simp add: fst_seq never_false_def)
  next
    case (Return x)
    then show ?thesis using a by (simp add: fst_seq)
  next
    case (Throw e)
    then show ?thesis by (simp add: fst_seq)
  qed
qed

lemma never_false_try_catch:
  assumes "never_false a"
  shows "never_false (try_catch a)"
  unfolding never_false_def
proof
  fix st
  have a: "fst (a st) \<noteq> Return False" using assms by (simp add: never_false_def)
  show "fst (try_catch a st) \<noteq> Return False"
    using a by (cases "fst (a st)") (simp_all add: fst_try_catch)
qed

lemma steady_basic:
  "steady skip" "steady (ret v)" "steady (throw e)" "steady (external c out)"
  by (simp_all add: steady_def skip_def ret_def throw_def external_def)

lemma steady_seq:
  assumes "steady a" "steady b"
  shows "steady (seq a b)"
  unfolding steady_def
proof (intro allI)
  fix st st'
  have a: "fst (a st) = fst (a st')" using assms(1) by (simp add: steady_def)
  have b: "fst (b (snd (a st))) = fst (b (snd (a st')))" using assms(2) by (simp add: steady_def)
  show "fst (seq a b st) = fst (seq a b st')"
    by (simp only: fst_seq a b)
qed

lemma steady_try_catch:
  assumes "steady a"
  shows "steady (try_catch a)"
  unfolding steady_def
proof (intro allI)
  fix st st'
  have a: "fst (a st) = fst (a st')" using assms by (simp add: steady_def)
  show "fst (try_catch a st) = fst (try_catch a st')"
    by (simp only: fst_try_catch a)
qed

lemma appends_basic:
  "appends k skip" "appends k (ret v)" "appends k (throw e)"
  "strategy_of c = k \<Longrightarrow> appends k (external c out)"
  by (simp_all add: appends_def skip_def ret_def throw_def external_def)

lemma appends_seq:
  assumes "appends k a" "appends k b"
  shows "appends k (seq a b)"
  unfolding appends_def
proof
  fix st
  from assms(1) obtain xs where xs: "trace (snd (a st)) = trace st @ xs" "\<forall>c \<in> set xs. strategy_of c = k"
    unfolding appends_def by blast
  from assms(2) obtain ys where ys: "trace (snd (b (snd (a st)))) = trace (snd (a st)) @ ys"
      "\<forall>c \<in> set ys. strategy_of c = k"
    unfolding appends_def by blast
  show "\<exists>calls. trace (snd (seq a b st)) = trace st @ calls \<and> (\<forall>c\<in>set calls. strategy_of c = k)"
  proof (cases "fst (a st) = Normal")
    case True
    then have "trace (snd (seq a b st)) = trace st @ (xs @ ys)"
      using xs ys by (simp add: snd_seq)
    moreover have "\<forall>c \<in> set (xs @ ys). strategy_of c = k" using xs ys by auto
    ultimately show ?thesis by blast
  next
    case False
    then have "trace (snd (seq a b st)) = trace st @ xs"
      using xs by (simp add: snd_seq split: completion.splits)
    then show ?thesis using xs by blast
  qed
qed

lemma appends_try_catch: "appends k a \<Longrightarrow> appends k (try_catch a)"
  by (simp add: appends_def snd_try_catch)

lemmas block_rules =
  never_false_basic never_false_seq never_false_try_catch
  steady_basic steady_seq steady_try_catch
  appends_basic appends_seq appends_try_catch

section \<open>The six strategies\<close>

lemma emit_candidates_Cons:
  "emit_candidates es m (name # rest)
     = seq (try_catch (seq (emit es (Str name) m) (ret True))) (emit_candidates es m rest)"
  by (rule ext) simp

lemma emit_candidates_Nil: "emit_candidates es m [] = skip"
  by (rule ext) simp

lemma emit_rules:
  "never_false (emit es n m)" "steady (emit es n m)" "appends 2 (emit es n m)"
  by (simp_all add: emit_def block_rules split: event_source.splits option.splits)

lemma emit_candidates_rules:
  "never_false (emit_candidates es m names)" "steady (emit_candidates es m names)"
  "appends 2 (emit_candidates es m names)"
  by (induction names)
     (simp_all only: emit_candidates_Cons emit_candidates_Nil block_rules emit_rules)

lemma primary_rules:
  "never_false (primary_TavernHelper w m)" "steady (primary_TavernHelper w m)"
  "appends 1 (primary_TavernHelper w m)"
  by (simp_all add: primary_TavernHelper_def block_rules split: tavern_helper.splits option.splits)

lemma secondary_rules:
  "never_false (secondary_eventSource w m)" "steady (secondary_eventSource w m)"
  "appends 2 (secondary_eventSource w m)"
  by (simp_all add: secondary_eventSource_def block_rules emit_rules emit_candidates_rules
        split: event_source.splits event_types.splits)

lemma third_rules:
  "never_false (third_CustomEvent m el)" "steady (third_CustomEvent m el)"
  "appends 3 (third_CustomEvent m el)"
  by (simp_all add: third_CustomEvent_def block_rules split: option.splits)

lemma try_globals_Nil: "try_globals [] m = skip"
  by (rule ext) simp

lemma try_globals_Cons:
  "try_globals ((fnName, g) # rest) m =
     (if \<not> name_matches fnName then try_globals rest m
      else case g of
             GlobalThrows \<Rightarrow> throw HostError
           | GlobalValue \<Rightarrow> try_globals rest m
           | GlobalFunction out \<Rightarrow>
               seq (try_catch (seq (external (GlobalCall fnName m) out) (ret True)))
                   (try_globals rest m))"
  by (rule ext) (simp split: global.splits)

lemma try_globals_rules:
  "never_false (try_globals gs m)" "steady (try_globals gs m)" "appends 4 (try_globals gs m)"
proof (induction gs)
  case Nil
  { case 1 show ?case by (simp only: try_globals_Nil block_rules) }
  { case 2 show ?case by (simp only: try_globals_Nil block_rules) }
  { case 3 show ?case by (simp only: try_globals_Nil block_rules) }
next
  case (Cons a gs)
  obtain fnName g where a: "a = (fnName, g)" by (cases a)
  { case 1 show ?case unfolding a try_globals_Cons using Cons.IH(1)
      by (cases g) (simp_all add: block_rules) }
  { case 2 show ?case unfolding a try_globals_Cons using Cons.IH(2)
      by (cases g) (simp_all add: block_rules) }
  { case 3 show ?case unfolding a try_globals_Cons using Cons.IH(3)
      by (cases g) (simp_all add: block_rules) }
qed

lemma fourth_rules:
  "never_false (fourth_global_functions w m)" "steady (fourth_global_functions w m)"
  "appends 4 (fourth_global_functions w m)"
  by (simp_all only: fourth_global_functions_def try_globals_rules)

lemma click_if_match_Nil: "click_if_match btn txt [] = skip"
  by (rule ext) simp

lemma click_if_match_Cons:
  "click_if_match btn txt (candidate # rest) =
     (if str_includes txt candidate \<or> str_includes candidate txt
      then seq (external (Click txt) (click btn)) (ret True)
      else click_if_match btn txt rest)"
  by (rule ext) simp

lemma click_if_match_rules:
  "never_false (click_if_match btn txt cs)" "steady (click_if_match btn txt cs)"
  "appends 5 (click_if_match btn txt cs)"
  by (induction cs)
     (simp_all only: click_if_match_Nil click_if_match_Cons block_rules strategy_of.simps
        if_split, simp_all)

lemma click_buttons_Nil: "click_buttons [] = skip"
  by (rule ext) simp

lemma click_buttons_Cons:
  "click_buttons (btn # rest) =
     (if trim (text_or_empty (btn_textContent btn)) = [] then click_buttons rest
      else seq (click_if_match btn (trim (text_or_empty (btn_textContent btn))) possibleButtonTexts)
               (click_buttons rest))"
  by (rule ext) (simp add: Let_def)

lemma click_buttons_rules:
  "never_false (click_buttons bs)" "steady (click_buttons bs)" "appends 5 (click_buttons bs)"
  by (induction bs)
     (simp_all only: click_buttons_Nil click_buttons_Cons block_rules click_if_match_rules
        if_split, simp_all)

lemma fifth_rules:
  "never_false (fifth_render_buttons el)" "steady (fifth_render_buttons el)"
  "appends 5 (fifth_render_buttons el)"
  by (simp_all add: fifth_render_buttons_def block_rules click_buttons_rules split: option.splits)

lemma last_resort_marker_Some:
  "last_resort_marker (Some el) st =
     (case appendChild el of
        Throws \<Rightarrow>
          (Throw HostError,
           st\<lparr>next_node := Suc (next_node st), trace := trace st @ [AppendChild (next_node st)]\<rparr>)
      | Returns \<Rightarrow>
          (Return True,
           st\<lparr>next_node := Suc (next_node st),
              trace := trace st @ [AppendChild (next_node st)],
              children := children st @ [next_node st],
              records := records st
                 @ [\<lparr>mtype = ChildList, addedNodes = [marker_node], removedNodes = []\<rparr>],
              next_handle := Suc (next_handle st),
              timers := (timers st)(next_handle st \<mapsto> (now st + 300, RemoveMarker (next_node st)))\<rparr>))"
  by (simp add: last_resort_marker_def Let_def external_def setTimeout_def queue_record_def
        observed_by_def MESSAGE_OBSERVER_OPTIONS_def split: outcome.splits)

lemma last_resort_rules:
  "never_false (last_resort_marker el)" "steady (last_resort_marker el)"
  "appends 6 (last_resort_marker el)"
proof -
  show "never_false (last_resort_marker el)"
  proof (cases el)
    case None
    then show ?thesis by (simp add: never_false_def last_resort_marker_def)
  next
    case (Some e)
    then show ?thesis
      by (simp add: never_false_def last_resort_marker_Some split: outcome.splits)
  qed
  show "steady (last_resort_marker el)"
  proof (cases el)
    case None
    then show ?thesis by (simp add: steady_def last_resort_marker_def)
  next
    case (Some e)
    then show ?thesis
      by (simp add: steady_def last_resort_marker_Some split: outcome.splits)
  qed
  show "appends 6 (last_resort_marker el)"
  proof (cases el)
    case None
    then show ?thesis by (simp add: appends_def last_resort_marker_def)
  next
    case (Some e)
    then show ?thesis
      by (simp add: appends_def last_resort_marker_Some split: outcome.splits)
  qed
qed

lemmas strategy_rules =
  primary_rules secondary_rules third_rules fourth_rules fifth_rules last_resort_rules

section \<open>The cascade\<close>

lemma seq_try_catch:
  assumes "never_false s"
  shows "seq (try_catch s) rest st =
           (case s st of (Return True, st') \<Rightarrow> (Return True, st') | (r, st') \<Rightarrow> rest st')"
proof -
  have "fst (s st) \<noteq> Return False" using assms by (simp add: never_false_def)
  then show ?thesis
    by (cases "s st"; cases "fst (s st)") (auto simp: seq_def try_catch_def)
qed

lemma cascade_step:
  assumes "never_false s" "rest = first_success bs"
  shows "seq (try_catch s) rest = first_success (s # bs)"
  unfolding assms(2) by (rule ext) (simp add: seq_try_catch [OF assms(1)])

lemma seq_entered: "seq (entered m) rest st = rest (snd (entered m st))"
  by (simp add: seq_def entered_def)

lemma tryTriggerRerender_first_success:
  "tryTriggerRerender w m el st = first_success (strategies w m el) (snd (entered m st))"
proof -
  have "seq (try_catch (primary_TavernHelper w m))
         (seq (try_catch (secondary_eventSource w m))
         (seq (try_catch (third_CustomEvent m el))
         (seq (try_catch (fourth_global_functions w m))
         (seq (try_catch (fifth_render_buttons el))
         (seq (try_catch (last_resort_marker el)) (ret False))))))
        = first_success (strategies w m el)"
    unfolding strategies_def
    by (intro cascade_step strategy_rules) (rule ext, simp add: ret_def)
  then show ?thesis
    by (simp only: tryTriggerRerender_def seq_entered)
qed

lemma first_success_flow:
  assumes "\<forall>b \<in> set bs. steady b"
  shows "fst (first_success bs st) = Return (\<exists>b \<in> set bs. fst (b st0) = Return True)"
  using assms
proof (induction bs arbitrary: st)
  case Nil
  show ?case by simp
next
  case (Cons s rest)
  have s: "fst (s st) = fst (s st0)" using Cons.prems by (simp add: steady_def)
  have rest: "\<And>st1. fst (first_success rest st1) = Return (\<exists>b \<in> set rest. fst (b st0) = Return True)"
    using Cons.IH Cons.prems by simp
  show ?case
  proof (cases "fst (s st) = Return True")
    case True
    with s have "fst (s st0) = Return True" by simp
    moreover have "first_success (s # rest) st = (Return True, snd (s st))"
      using True by (cases "s st") auto
    ultimately show ?thesis by simp
  next
    case False
    then have "first_success (s # rest) st = first_success rest (snd (s st))"
      by (cases "s st"; cases "fst (s st)") (auto split: bool.splits)
    then show ?thesis using False s rest by simp
  qed
qed

lemma first_success_trace:
  assumes "\<forall>(k, b) \<in> set kbs. appends k b" "sorted (map fst kbs)"
  shows "\<exists>calls. trace (snd (first_success (map snd kbs) st)) = trace st @ calls
           \<and> sorted (map strategy_of calls)
           \<and> (\<forall>c \<in> set calls. strategy_of c \<in> fst ` set kbs)"
  using assms
proof (induction kbs arbitrary: st)
  case Nil
  show ?case by simp
next
  case (Cons kb rest)
  obtain k b where kb: "kb = (k, b)" by (cases kb)
  from Cons.prems(1) kb have "appends k b" by simp
  then obtain xs where xs: "trace (snd (b st)) = trace st @ xs" "\<forall>c \<in> set xs. strategy_of c = k"
    unfolding appends_def by blast
  have sorted_xs: "sorted (map strategy_of xs)"
    using xs(2) by (induction xs) auto
  show ?case
  proof (cases "fst (b st) = Return True")
    case True
    then have "first_success (map snd (kb # rest)) st = b st"
      using kb by (cases "b st") auto
    then show ?thesis using xs sorted_xs kb by auto
  next
    case False
    then have eq: "first_success (map snd (kb # rest)) st = first_success (map snd rest) (snd (b st))"
      using kb by (cases "b st"; cases "fst (b st)") (auto split: bool.splits)
    from Cons.IH [of "snd (b st)"] Cons.prems obtain ys where
      ys: "trace (snd (first_success (map snd rest) (snd (b st)))) = trace (snd (b st)) @ ys"
          "sorted (map strategy_of ys)" "\<forall>c \<in> set ys. strategy_of c \<in> fst ` set rest"
      by auto
    have le: "\<forall>c \<in> set ys. k \<le> strategy_of c"
    proof
      fix c assume "c \<in> set ys"
      with ys(3) have "strategy_of c \<in> fst ` set rest" by blast
      with Cons.prems(2) kb show "k \<le> strategy_of c" by auto
    qed
    have "sorted (map strategy_of (xs @ ys))"
      using sorted_xs ys(2) xs(2) le by (auto simp: sorted_append)
    moreover have "trace (snd (first_success (map snd (kb # rest)) st)) = trace st @ (xs @ ys)"
      using eq xs(1) ys(1) by simp
    moreover have "\<forall>c \<in> set (xs @ ys). strategy_of c \<in> fst ` set (kb # rest)"
      using xs(2) ys(3) kb by auto
    ultimately show ?thesis by blast
  qed
qed

lemma tryTriggerRerender_trace:
  "\<exists>calls. trace (snd (tryTriggerRerender w m el st)) = trace st @ calls
     \<and> sorted (map strategy_of calls)"
proof -
  let ?kbs = "zip [1, 2, 3, 4, 5, 6 :: nat] (strategies w m el)"
  have 1: "\<forall>(k, b) \<in> set ?kbs. appends k b"
    using strategy_rules by (simp add: strategies_def)
  have 2: "sorted (map fst ?kbs)" by (simp add: strategies_def)
  have 3: "map snd ?kbs = strategies w m el" by (simp add: strategies_def)
  have 4: "trace (snd (entered m st)) = trace st" by (simp add: entered_def)
  from first_success_trace [OF 1 2, of "snd (entered m st)"] show ?thesis
    unfolding 3 4 tryTriggerRerender_first_success by blast
qed

lemma strategies_steady: "\<forall>b \<in> set (strategies w m el). steady b"
  by (simp add: strategies_def strategy_rules)

lemma tryTriggerRerender_flow:
  "fst (tryTriggerRerender w m el st)
     = Return (\<exists>b \<in> set (strategies w m el). fst (b st0) = Return True)"
  unfolding tryTriggerRerender_first_success
  by (rule first_success_flow [OF strategies_steady])

lemmas run_defs =
  tryTriggerRerender_def entered_def primary_TavernHelper_def secondary_eventSource_def
  third_CustomEvent_def fourth_global_functions_def fifth_render_buttons_def
  last_resort_marker_def emit_def candidates_def name_matches_def possibleButtonTexts_def
  seq_def try_catch_def skip_def ret_def throw_def external_def setTimeout_def
  toLowerCase_def trim_def is_space_def white_space_def text_or_empty_def js_or_def Let_def
  queue_record_def observed_by_def MESSAGE_OBSERVER_OPTIONS_def

text \<open>
  Claim C4: tryTriggerRerender never propagates an exception to its caller, whatever the
  external callees do: it always returns true or false, and when a strategy throws, the
  strategies after it are still tried.
\<close>

theorem tryTriggerRerender_never_throws:
  "(\<exists>b st'. tryTriggerRerender w messageId mesTextEl st = (Return b, st'))
   \<and> (k < 6 \<and> (\<exists>e. fst ((strategies w messageId mesTextEl ! k) st) = Throw e)
        \<and> (\<forall>i<k. fst ((strategies w messageId mesTextEl ! i) st) \<noteq> Return True)
      \<longrightarrow> fst (tryTriggerRerender w messageId mesTextEl st)
            = Return (\<exists>s \<in> set (drop (Suc k) (strategies w messageId mesTextEl)).
                        fst (s st) = Return True))"
proof
  let ?ss = "strategies w messageId mesTextEl"
  have flow: "fst (tryTriggerRerender w messageId mesTextEl st)
                = Return (\<exists>s \<in> set ?ss. fst (s st) = Return True)"
    by (rule tryTriggerRerender_flow)
  then show "\<exists>b st'. tryTriggerRerender w messageId mesTextEl st = (Return b, st')"
    by (cases "tryTriggerRerender w messageId mesTextEl st") auto
  show "k < 6 \<and> (\<exists>e. fst ((?ss ! k) st) = Throw e)
        \<and> (\<forall>i<k. fst ((?ss ! i) st) \<noteq> Return True)
      \<longrightarrow> fst (tryTriggerRerender w messageId mesTextEl st)
            = Return (\<exists>s \<in> set (drop (Suc k) ?ss). fst (s st) = Return True)"
  proof
    assume h: "k < 6 \<and> (\<exists>e. fst ((?ss ! k) st) = Throw e)
        \<and> (\<forall>i<k. fst ((?ss ! i) st) \<noteq> Return True)"
    have len: "length ?ss = 6" by (simp add: strategies_def)
    have split: "?ss = take k ?ss @ (?ss ! k) # drop (Suc k) ?ss"
      using h len by (simp add: id_take_nth_drop)
    have pre: "\<not> (\<exists>s \<in> set (take k ?ss). fst (s st) = Return True)"
      using h len by (auto simp: in_set_conv_nth)
    have mid: "fst ((?ss ! k) st) \<noteq> Return True" using h by auto
    have "(\<exists>s \<in> set ?ss. fst (s st) = Return True)
            \<longleftrightarrow> (\<exists>s \<in> set (drop (Suc k) ?ss). fst (s st) = Return True)"
      using pre mid by (subst split) auto
    with flow show "fst (tryTriggerRerender w messageId mesTextEl st)
            = Return (\<exists>s \<in> set (drop (Suc k) ?ss). fst (s st) = Return True)"
      by simp
  qed
qed

theorem tryTriggerRerender_never_throws_witness:
  "fst ((strategies hostile_window Null (Some hostile_element) ! 0) initial_page) = Throw TypeError
   \<and> fst ((strategies hostile_window Null (Some hostile_element) ! 5) initial_page) = Throw HostError
   \<and> tryTriggerRerender hostile_window Null (Some hostile_element) initial_page
       = (Return False,
          initial_page\<lparr>invocations := [Null], next_node := 1,
            trace := [Emit (Str ''MESSAGE_UPDATED'') Null, Emit (Str ''message_updated'') Null,
                      Emit (Str ''messageUpdated'') Null, Emit (Str ''MESSAGE:UPDATED'') Null,
                      Emit (Str ''render_message'') Null, Emit (Str ''refresh_message'') Null,
                      DispatchEvent Null, GlobalCall ''sendMessage'' Null,
                      Click ''Render code'', AppendChild 0]\<rparr>)"
proof -
  have 0: "fst ((strategies hostile_window Null (Some hostile_element) ! 0) initial_page)
             = Throw TypeError"
    by (simp add: strategies_def run_defs hostile_window_def)
  have 5: "fst ((strategies hostile_window Null (Some hostile_element) ! 5) initial_page)
             = Throw HostError"
    by (simp add: strategies_def run_defs hostile_element_def)
  have run: "tryTriggerRerender hostile_window Null (Some hostile_element) initial_page
       = (Return False,
          initial_page\<lparr>invocations := [Null], next_node := 1,
            trace := [Emit (Str ''MESSAGE_UPDATED'') Null, Emit (Str ''message_updated'') Null,
                      Emit (Str ''messageUpdated'') Null, Emit (Str ''MESSAGE:UPDATED'') Null,
                      Emit (Str ''render_message'') Null, Emit (Str ''refresh_message'') Null,
                      DispatchEvent Null, GlobalCall ''sendMessage'' Null,
                      Click ''Render code'', AppendChild 0]\<rparr>)"
    by (simp add: run_defs hostile_window_def hostile_element_def initial_page_def)
  from tryTriggerRerender_never_throws
         [of hostile_window Null "Some hostile_element" initial_page 0]
  have "\<exists>b st'. tryTriggerRerender hostile_window Null (Some hostile_element) initial_page
          = (Return b, st')"
    by blast
  with 0 5 run show ?thesis by simp
qed

section \<open>When a strategy succeeds\<close>

lemma primary_succeeds:
  "fst (primary_TavernHelper w m st) = Return True
     \<longleftrightarrow> TavernHelper w = TavernHelper_object (Some Returns)"
  by (simp add: primary_TavernHelper_def seq_def external_def ret_def skip_def throw_def
        split: tavern_helper.splits option.splits outcome.splits)

lemma emit_succeeds:
  "fst (seq (emit es name m) (ret True) (st :: page)) = Return True
     \<longleftrightarrow> (\<exists>f. es = EventSource_object (Some f) \<and> f name = Returns)"
  by (auto simp: emit_def seq_def external_def ret_def throw_def
        split: event_source.splits option.splits outcome.splits)

lemma emit_candidates_succeeds:
  "fst (emit_candidates es m names st) = Return True
     \<longleftrightarrow> (\<exists>f. es = EventSource_object (Some f) \<and> (\<exists>name \<in> set names. f (Str name) = Returns))"
proof (induction names arbitrary: st)
  case Nil
  show ?case by (simp add: skip_def)
next
  case (Cons name names)
  let ?first = "try_catch (seq (emit es (Str name) m) (ret True))"
  have nf: "never_false (seq (emit es (Str name) m) (ret True) :: (bool, page) block)"
    by (simp add: block_rules emit_rules)
  have first: "fst (?first st) = Return True
                 \<longleftrightarrow> (\<exists>f. es = EventSource_object (Some f) \<and> f (Str name) = Returns)"
    using emit_succeeds [of es "Str name" m st]
    by (cases "fst (seq (emit es (Str name) m) (ret True) st)") (simp_all add: fst_try_catch)
  have other: "fst (?first st) = Normal" if "fst (?first st) \<noteq> Return True"
  proof -
    have "fst (?first st) \<noteq> Return False"
      using never_false_try_catch [OF nf] by (simp add: never_false_def)
    with that show ?thesis
      by (cases "fst (seq (emit es (Str name) m) (ret True) st)")
         (auto simp: fst_try_catch)
  qed
  show ?case
  proof (cases "fst (?first st) = Return True")
    case True
    then have "fst (emit_candidates es m (name # names) st) = Return True"
      by (simp add: fst_seq)
    with True first show ?thesis by auto
  next
    case False
    from other [OF False]
    have "fst (emit_candidates es m (name # names) st)
            = fst (emit_candidates es m names (snd (?first st)))"
      by (simp add: fst_seq)
    with False first Cons.IH [of "snd (?first st)"] show ?thesis by auto
  qed
qed

lemma secondary_succeeds:
  "fst (secondary_eventSource w m st) = Return True
     \<longleftrightarrow> (\<exists>f. eventSource w = EventSource_object (Some f)
            \<and> (case event_types w of
                  EventTypes_object known \<Rightarrow>
                    if truthy known then f known = Returns
                    else \<exists>name \<in> set candidates. f (Str name) = Returns
                | _ \<Rightarrow> \<exists>name \<in> set candidates. f (Str name) = Returns))"
proof (cases "eventSource w")
  case EventSource_undefined
  then show ?thesis by (simp add: secondary_eventSource_def skip_def)
next
  case EventSource_null
  then show ?thesis
    using emit_succeeds [of EventSource_null _ m st]
          emit_candidates_succeeds [of EventSource_null m candidates st]
    by (simp add: secondary_eventSource_def split: event_types.splits)
next
  case (EventSource_object x)
  then show ?thesis
    using emit_succeeds [of "EventSource_object x" _ m st]
          emit_candidates_succeeds [of "EventSource_object x" m candidates st]
    by (simp add: secondary_eventSource_def split: event_types.splits)
qed

lemma third_succeeds:
  "fst (third_CustomEvent m el st) = Return True
     \<longleftrightarrow> (\<exists>e. el = Some e \<and> dispatchEvent e = Returns)"
  by (simp add: third_CustomEvent_def seq_def external_def ret_def skip_def
        split: option.splits outcome.splits)

lemma last_resort_succeeds:
  "fst (last_resort_marker el st) = Return True
     \<longleftrightarrow> (\<exists>e. el = Some e \<and> appendChild e = Returns)"
proof (cases el)
  case None
  then show ?thesis by (simp add: last_resort_marker_def)
next
  case (Some e)
  then show ?thesis by (simp add: last_resort_marker_Some split: outcome.splits)
qed

lemma try_globals_succeeds:
  "fst (try_globals gs m st) = Return True
     \<longleftrightarrow> (\<exists>pre fnName post. gs = pre @ (fnName, GlobalFunction Returns) # post
            \<and> name_matches fnName
            \<and> (\<forall>(n, g) \<in> set pre. name_matches n \<longrightarrow> g \<noteq> GlobalThrows))"
  (is "?L gs st \<longleftrightarrow> ?R gs")
proof (induction gs arbitrary: st)
  case Nil
  show ?case by (simp add: skip_def)
next
  case (Cons a gs)
  obtain n0 g0 where a: "a = (n0, g0)" by (cases a)
  have skip_head: "?R (a # gs) \<longleftrightarrow> ?R gs"
    if "\<not> (name_matches n0 \<and> g0 = GlobalFunction Returns)" "name_matches n0 \<longrightarrow> g0 \<noteq> GlobalThrows"
  proof
    assume "?R (a # gs)"
    then obtain pre fnName post where s: "a # gs = pre @ (fnName, GlobalFunction Returns) # post"
      "name_matches fnName" "\<forall>(n, g) \<in> set pre. name_matches n \<longrightarrow> g \<noteq> GlobalThrows"
      by blast
    show "?R gs"
    proof (cases pre)
      case Nil
      with s a that(1) show ?thesis by simp
    next
      case (Cons b pre')
      with s have "gs = pre' @ (fnName, GlobalFunction Returns) # post"
        "\<forall>(n, g) \<in> set pre'. name_matches n \<longrightarrow> g \<noteq> GlobalThrows"
        by simp_all
      with s(2) show ?thesis by blast
    qed
  next
    assume "?R gs"
    then obtain pre fnName post where s: "gs = pre @ (fnName, GlobalFunction Returns) # post"
      "name_matches fnName" "\<forall>(n, g) \<in> set pre. name_matches n \<longrightarrow> g \<noteq> GlobalThrows"
      by blast
    have "a # gs = (a # pre) @ (fnName, GlobalFunction Returns) # post" using s(1) by simp
    moreover have "\<forall>(n, g) \<in> set (a # pre). name_matches n \<longrightarrow> g \<noteq> GlobalThrows"
      using s(3) a that(2) by simp
    ultimately show "?R (a # gs)" using s(2) by blast
  qed
  show ?case
  proof (cases "name_matches n0")
    case False
    then have "?L (a # gs) st \<longleftrightarrow> ?L gs st" by (simp add: a)
    with Cons.IH [of st] skip_head False show ?thesis by simp
  next
    case True
    show ?thesis
    proof (cases g0)
      case GlobalThrows
      have "\<not> ?R (a # gs)"
      proof
        assume "?R (a # gs)"
        then obtain pre fnName post where s: "a # gs = pre @ (fnName, GlobalFunction Returns) # post"
          "\<forall>(n, g) \<in> set pre. name_matches n \<longrightarrow> g \<noteq> GlobalThrows"
          by blast
        show False
        proof (cases pre)
          case Nil
          with s a GlobalThrows show ?thesis by simp
        next
          case (Cons b pre')
          with s a have "b = (n0, g0)" by simp
          with s(2) Cons True GlobalThrows show ?thesis by simp
        qed
      qed
      moreover have "\<not> ?L (a # gs) st" using True GlobalThrows by (simp add: a throw_def)
      ultimately show ?thesis by simp
    next
      case GlobalValue
      then have "?L (a # gs) st \<longleftrightarrow> ?L gs st" using True by (simp add: a)
      with Cons.IH [of st] skip_head GlobalValue show ?thesis by simp
    next
      case (GlobalFunction out)
      show ?thesis
      proof (cases out)
        case Returns
        have "?L (a # gs) st"
          using True GlobalFunction Returns
          by (simp add: a seq_def try_catch_def external_def ret_def)
        moreover have "a # gs = [] @ (n0, GlobalFunction Returns) # gs"
          using a GlobalFunction Returns by simp
        then have "?R (a # gs)" using True by (intro exI conjI) auto
        ultimately show ?thesis by simp
      next
        case Throws
        let ?st1 = "st\<lparr>trace := trace st @ [GlobalCall n0 m]\<rparr>"
        have "try_globals (a # gs) m st = try_globals gs m ?st1"
          using True GlobalFunction Throws
          by (simp add: a seq_def try_catch_def external_def ret_def)
        then have "?L (a # gs) st \<longleftrightarrow> ?L gs ?st1" by simp
        with Cons.IH [of ?st1] skip_head GlobalFunction Throws show ?thesis by simp
      qed
    qed
  qed
qed

lemma click_if_match_flow:
  "fst (click_if_match btn txt cs st)
     = (if list_ex (\<lambda>candidate. str_includes txt candidate \<or> str_includes candidate txt) cs
        then (case click btn of Returns \<Rightarrow> Return True | Throws \<Rightarrow> Throw HostError)
        else Normal)"
  by (induction cs)
     (simp_all add: skip_def seq_def external_def ret_def split: outcome.splits)

lemma click_buttons_succeeds:
  "fst (click_buttons bs st) = Return True
     \<longleftrightarrow> (\<exists>pre btn post. bs = pre @ btn # post \<and> label_matches btn \<and> click btn = Returns
            \<and> (\<forall>b \<in> set pre. \<not> label_matches b))"
  (is "?L bs st \<longleftrightarrow> ?R bs")
proof (induction bs arbitrary: st)
  case Nil
  show ?case by (simp add: skip_def)
next
  case (Cons b bs)
  let ?txt = "trim (text_or_empty (btn_textContent b))"
  have skip_head: "?R (b # bs) \<longleftrightarrow> ?R bs" if "\<not> label_matches b"
  proof
    assume "?R (b # bs)"
    then obtain pre btn post where s: "b # bs = pre @ btn # post" "label_matches btn"
      "click btn = Returns" "\<forall>b \<in> set pre. \<not> label_matches b"
      by blast
    show "?R bs"
    proof (cases pre)
      case Nil
      with s that show ?thesis by simp
    next
      case (Cons c pre')
      with s have "bs = pre' @ btn # post" "\<forall>b \<in> set pre'. \<not> label_matches b" by simp_all
      with s(2,3) show ?thesis by blast
    qed
  next
    assume "?R bs"
    then obtain pre btn post where s: "bs = pre @ btn # post" "label_matches btn"
      "click btn = Returns" "\<forall>b \<in> set pre. \<not> label_matches b"
      by blast
    have "b # bs = (b # pre) @ btn # post" using s(1) by simp
    moreover have "\<forall>c \<in> set (b # pre). \<not> label_matches c" using s(4) that by simp
    ultimately show "?R (b # bs)" using s(2,3) by blast
  qed
  show ?case
  proof (cases "label_matches b")
    case False
    have step: "\<exists>st'. click_buttons (b # bs) st = click_buttons bs st'"
    proof (cases "?txt = []")
      case True
      then show ?thesis by (auto simp: Let_def)
    next
      case False
      with \<open>\<not> label_matches b\<close> have "fst (click_if_match b ?txt possibleButtonTexts st) = Normal"
        by (simp add: click_if_match_flow label_matches_def Let_def)
      then show ?thesis
        using False by (cases "click_if_match b ?txt possibleButtonTexts st")
          (auto simp: Let_def seq_def)
    qed
    then obtain st' where "click_buttons (b # bs) st = click_buttons bs st'" by blast
    with Cons.IH [of st'] skip_head [OF False] show ?thesis by simp
  next
    case True
    then have nonempty: "?txt \<noteq> []"
      and matching: "list_ex (\<lambda>candidate. str_includes ?txt candidate \<or> str_includes candidate ?txt)
                possibleButtonTexts"
      by (simp_all add: label_matches_def Let_def)
    have flow: "fst (click_buttons (b # bs) st)
                  = (case click b of Returns \<Rightarrow> Return True | Throws \<Rightarrow> Throw HostError)"
      using nonempty matching click_if_match_flow [of b ?txt possibleButtonTexts st]
      by (cases "click b") (simp_all add: Let_def fst_seq)
    have R: "?R (b # bs) \<longleftrightarrow> click b = Returns"
    proof
      assume "?R (b # bs)"
      then obtain pre btn post where s: "b # bs = pre @ btn # post" "label_matches btn"
        "click btn = Returns" "\<forall>b \<in> set pre. \<not> label_matches b"
        by blast
      show "click b = Returns"
      proof (cases pre)
        case Nil
        with s show ?thesis by simp
      next
        case (Cons c pre')
        with s have "c = b" by simp
        with s(4) Cons True show ?thesis by simp
      qed
    next
      assume "click b = Returns"
      moreover have "b # bs = [] @ b # bs" by simp
      ultimately show "?R (b # bs)" using True by (intro exI conjI) auto
    qed
    show ?thesis unfolding R flow by (cases "click b") simp_all
  qed
qed

lemma strategy_success:
  "fst (primary_TavernHelper w m st) = Return True
     \<longleftrightarrow> TavernHelper w = TavernHelper_object (Some Returns)"
  "fst (secondary_eventSource w m st) = Return True
     \<longleftrightarrow> (\<exists>f. eventSource w = EventSource_object (Some f)
            \<and> (case event_types w of
                  EventTypes_object known \<Rightarrow>
                    if truthy known then f known = Returns
                    else \<exists>name \<in> set candidates. f (Str name) = Returns
                | _ \<Rightarrow> \<exists>name \<in> set candidates. f (Str name) = Returns))"
  "fst (third_CustomEvent m el st) = Return True
     \<longleftrightarrow> (\<exists>e. el = Some e \<and> dispatchEvent e = Returns)"
  "fst (fourth_global_functions w m st) = Return True
     \<longleftrightarrow> (\<exists>pre fnName post. ownProperties w = pre @ (fnName, GlobalFunction Returns) # post
            \<and> name_matches fnName
            \<and> (\<forall>(n, g) \<in> set pre. name_matches n \<longrightarrow> g \<noteq> GlobalThrows))"
  "fst (fifth_render_buttons el st) = Return True
     \<longleftrightarrow> (\<exists>e pre btn post. el = Some e \<and> buttons e = pre @ btn # post
            \<and> label_matches btn \<and> click btn = Returns \<and> (\<forall>b \<in> set pre. \<not> label_matches b))"
  "fst (last_resort_marker el st) = Return True
     \<longleftrightarrow> (\<exists>e. el = Some e \<and> appendChild e = Returns)"
proof -
  show "fst (fifth_render_buttons el st) = Return True
     \<longleftrightarrow> (\<exists>e pre btn post. el = Some e \<and> buttons e = pre @ btn # post
            \<and> label_matches btn \<and> click btn = Returns \<and> (\<forall>b \<in> set pre. \<not> label_matches b))"
    by (cases el) (simp_all add: fifth_render_buttons_def skip_def click_buttons_succeeds)
qed (simp_all only: primary_succeeds secondary_succeeds third_succeeds last_resort_succeeds
       fourth_global_functions_def try_globals_succeeds)

lemma first_success_stops:
  assumes "\<forall>b \<in> set bs. steady b" "k < length bs" "fst ((bs ! k) st0) = Return True"
  shows "first_success bs st = first_success (take (Suc k) bs) st"
  using assms
proof (induction bs arbitrary: k st)
  case Nil
  then show ?case by simp
next
  case (Cons s rest)
  have s: "fst (s st) = fst (s st0)" using Cons.prems(1) by (simp add: steady_def)
  show ?case
  proof (cases k)
    case 0
    with Cons.prems(3) s have "fst (s st) = Return True" by simp
    then show ?thesis using 0 by (cases "s st") auto
  next
    case (Suc j)
    have "first_success rest st1 = first_success (take (Suc j) rest) st1" for st1
      using Cons.IH [of j st1] Cons.prems Suc by simp
    then show ?thesis
      using Suc by (simp split: prod.splits completion.splits bool.splits)
  qed
qed

lemma tryTriggerRerender_stops:
  assumes "k < 6" "fst ((strategies w m el ! k) st) = Return True"
  shows "\<exists>calls. trace (snd (tryTriggerRerender w m el st)) = trace st @ calls
           \<and> (\<forall>c \<in> set calls. strategy_of c \<le> Suc k)"
proof -
  let ?ss = "strategies w m el"
  let ?kbs = "take (Suc k) (zip [1, 2, 3, 4, 5, 6 :: nat] ?ss)"
  have len: "length ?ss = 6" by (simp add: strategies_def)
  have 1: "\<forall>(i, b) \<in> set ?kbs. appends i b"
  proof -
    have "\<forall>(i, b) \<in> set (zip [1, 2, 3, 4, 5, 6 :: nat] ?ss). appends i b"
      using strategy_rules by (simp add: strategies_def)
    then show ?thesis by (meson in_set_takeD)
  qed
  have 2: "sorted (map fst ?kbs)"
  proof -
    have "map fst ?kbs = take (Suc k) [1, 2, 3, 4, 5, 6 :: nat]"
      by (simp add: take_map [symmetric] strategies_def)
    moreover have "sorted (take (Suc k) [1, 2, 3, 4, 5, 6 :: nat])"
      by (rule sorted_wrt_take) simp
    ultimately show ?thesis by simp
  qed
  have 3: "map snd ?kbs = take (Suc k) ?ss"
    by (simp add: take_map [symmetric] strategies_def)
  have 4: "trace (snd (entered m st)) = trace st" by (simp add: entered_def)
  have bound: "i \<le> Suc k" if "i \<in> fst ` set ?kbs" for i
  proof -
    let ?ns = "[1, 2, 3, 4, 5, 6 :: nat]"
    have nth: "?ns ! j = Suc j" if "j < 6" for j
      using that by (auto simp: numeral_eq_Suc less_Suc_eq)
    from \<open>i \<in> fst ` set ?kbs\<close> have "i \<in> set (take (Suc k) ?ns)"
      by (simp add: take_map [symmetric] strategies_def flip: set_map)
    then obtain j where j: "j < length (take (Suc k) ?ns)" "take (Suc k) ?ns ! j = i"
      unfolding in_set_conv_nth by blast
    from j(1) have "j < Suc k" "j < 6"
      by (simp_all only: length_take min_less_iff_conj, simp_all)
    with j(2) have "i = Suc j" by (simp only: nth_take nth)
    with \<open>j < Suc k\<close> show ?thesis by simp
  qed
  have stop: "first_success ?ss (snd (entered m st))
                = first_success (take (Suc k) ?ss) (snd (entered m st))"
    by (rule first_success_stops [OF strategies_steady _ assms(2)]) (simp add: len assms(1))
  from first_success_trace [OF 1 2, of "snd (entered m st)"] obtain calls where
    "trace (snd (first_success (map snd ?kbs) (snd (entered m st)))) = trace st @ calls"
    "\<forall>c \<in> set calls. strategy_of c \<in> fst ` set ?kbs"
    unfolding 4 by blast
  then show ?thesis
    unfolding tryTriggerRerender_first_success stop 3 using bound by blast
qed

text \<open>
  Claim C1: for every message id and message text, tryTriggerRerender attempts the six
  strategies in the order host API, event bus, custom DOM event, global functions, button
  click, marker insertion; it stops and returns true at the first strategy that is
  applicable and does not throw, and returns false only when no strategy did so.

  The function is the cascade \<open>first_success\<close> over the six strategies in that order. A
  strategy ends with \<^verbatim>\<open>return true\<close> exactly when it finds something to call and the call
  returns: \<^verbatim>\<open>refreshOneMessage\<close> is a function and returns; the event source has a function
  \<^verbatim>\<open>emit\<close> that returns for the known event type, or, when there is none, for one of
  the guessed names; there is a message text and \<^verbatim>\<open>dispatchEvent\<close> returns; some global
  function with a matching name returns, and reading no matching global before it throws;
  the first button with a matching label can be clicked; there is a message text and
  \<^verbatim>\<open>appendChild\<close> returns. The external calls recorded are ordered by strategy, and when
  strategy \<open>k + 1\<close> ends with \<^verbatim>\<open>return true\<close> no later strategy makes a call. The result
  is true exactly when one of the strategies ends with \<^verbatim>\<open>return true\<close>, and false
  otherwise.
\<close>

theorem tryTriggerRerender_strategy_order:
  "tryTriggerRerender w messageId mesTextEl st
     = first_success (strategies w messageId mesTextEl) (snd (entered messageId st))
   \<and> (fst (primary_TavernHelper w messageId st) = Return True
        \<longleftrightarrow> TavernHelper w = TavernHelper_object (Some Returns))
   \<and> (fst (secondary_eventSource w messageId st) = Return True
        \<longleftrightarrow> (\<exists>f. eventSource w = EventSource_object (Some f)
               \<and> (case event_types w of
                     EventTypes_object known \<Rightarrow>
                       if truthy known then f known = Returns
                       else \<exists>name \<in> set candidates. f (Str name) = Returns
                   | _ \<Rightarrow> \<exists>name \<in> set candidates. f (Str name) = Returns)))
   \<and> (fst (third_CustomEvent messageId mesTextEl st) = Return True
        \<longleftrightarrow> (\<exists>e. mesTextEl = Some e \<and> dispatchEvent e = Returns))
   \<and> (fst (fourth_global_functions w messageId st) = Return True
        \<longleftrightarrow> (\<exists>pre fnName post.
               ownProperties w = pre @ (fnName, GlobalFunction Returns) # post
               \<and> name_matches fnName
               \<and> (\<forall>(n, g) \<in> set pre. name_matches n \<longrightarrow> g \<noteq> GlobalThrows)))
   \<and> (fst (fifth_render_buttons mesTextEl st) = Return True
        \<longleftrightarrow> (\<exists>e pre btn post. mesTextEl = Some e \<and> buttons e = pre @ btn # post
               \<and> label_matches btn \<and> click btn = Returns
               \<and> (\<forall>b \<in> set pre. \<not> label_matches b)))
   \<and> (fst (last_resort_marker mesTextEl st) = Return True
        \<longleftrightarrow> (\<exists>e. mesTextEl = Some e \<and> appendChild e = Returns))
   \<and> (\<exists>calls. trace (snd (tryTriggerRerender w messageId mesTextEl st)) = trace st @ calls
          \<and> sorted (map strategy_of calls))
   \<and> (k < 6 \<and> fst ((strategies w messageId mesTextEl ! k) st) = Return True
        \<longrightarrow> (\<exists>calls. trace (snd (tryTriggerRerender w messageId mesTextEl st)) = trace st @ calls
               \<and> (\<forall>c \<in> set calls. strategy_of c \<le> Suc k)))
   \<and> fst (tryTriggerRerender w messageId mesTextEl st)
       = Return (\<exists>s \<in> set (strategies w messageId mesTextEl). fst (s st) = Return True)"
proof -
  have stops: "k < 6 \<and> fst ((strategies w messageId mesTextEl ! k) st) = Return True
        \<longrightarrow> (\<exists>calls. trace (snd (tryTriggerRerender w messageId mesTextEl st)) = trace st @ calls
               \<and> (\<forall>c \<in> set calls. strategy_of c \<le> Suc k))"
    using tryTriggerRerender_stops [of k w messageId mesTextEl st] by blast
  show ?thesis
    by (intro conjI)
       (rule tryTriggerRerender_first_success strategy_success tryTriggerRerender_trace stops
             tryTriggerRerender_flow)+
qed

theorem tryTriggerRerender_strategy_order_witness:
  "tryTriggerRerender demo_window (Str ''12'') (Some demo_element) initial_page
     = (Return True,
        initial_page\<lparr>invocations := [Str ''12''],
          trace := [RefreshOneMessage (Str ''12''), DispatchEvent (Str ''12''),
                    GlobalCall ''postMessage'' (Str ''12''),
                    GlobalCall ''refreshAll'' (Str ''12'')]\<rparr>)
   \<and> fst ((strategies demo_window (Str ''12'') (Some demo_element) ! 3) initial_page) = Return True
   \<and> list_all (\<lambda>c. strategy_of c \<le> 4)
        (trace (snd (tryTriggerRerender demo_window (Str ''12'') (Some demo_element) initial_page)))
   \<and> tryTriggerRerender event_bus_window (Str ''12'') None initial_page
       = (Return True,
          initial_page\<lparr>invocations := [Str ''12''],
            trace := [Emit (Str ''MESSAGE_UPDATED'') (Str ''12''),
                      Emit (Str ''message_updated'') (Str ''12'')]\<rparr>)
   \<and> tryTriggerRerender bare_window (Str ''12'') (Some padded_element) initial_page
       = (Return True,
          initial_page\<lparr>invocations := [Str ''12''],
            trace := [DispatchEvent (Str ''12''), Click ''Rend'']\<rparr>)"
proof -
  have run: "tryTriggerRerender demo_window (Str ''12'') (Some demo_element) initial_page
     = (Return True,
        initial_page\<lparr>invocations := [Str ''12''],
          trace := [RefreshOneMessage (Str ''12''), DispatchEvent (Str ''12''),
                    GlobalCall ''postMessage'' (Str ''12''),
                    GlobalCall ''refreshAll'' (Str ''12'')]\<rparr>)"
    by (simp add: run_defs demo_window_def demo_element_def initial_page_def)
  have bus: "tryTriggerRerender event_bus_window (Str ''12'') None initial_page
       = (Return True,
          initial_page\<lparr>invocations := [Str ''12''],
            trace := [Emit (Str ''MESSAGE_UPDATED'') (Str ''12''),
                      Emit (Str ''message_updated'') (Str ''12'')]\<rparr>)"
    by (simp add: run_defs event_bus_window_def initial_page_def)
  have padded: "tryTriggerRerender bare_window (Str ''12'') (Some padded_element) initial_page
       = (Return True,
          initial_page\<lparr>invocations := [Str ''12''],
            trace := [DispatchEvent (Str ''12''), Click ''Rend'']\<rparr>)"
    by (simp add: run_defs bare_window_def padded_element_def initial_page_def)
  have 3: "fst ((strategies demo_window (Str ''12'') (Some demo_element) ! 3) initial_page)
             = Return True"
    by (simp add: strategies_def run_defs demo_window_def)
  from tryTriggerRerender_strategy_order
         [of demo_window "Str ''12''" "Some demo_element" initial_page 3] 3
  obtain calls where
    "trace (snd (tryTriggerRerender demo_window (Str ''12'') (Some demo_element) initial_page))
       = trace initial_page @ calls"
    "\<forall>c \<in> set calls. strategy_of c \<le> 4"
    by auto
  then have "list_all (\<lambda>c. strategy_of c \<le> 4)
        (trace (snd (tryTriggerRerender demo_window (Str ''12'') (Some demo_element) initial_page)))"
    by (simp add: initial_page_def list_all_iff)
  with run bus padded 3 show ?thesis by simp
qed

section \<open>What tryTriggerRerender leaves alone\<close>

lemma frameI:
  assumes "\<And>st. now (snd (b st)) = now st" "\<And>st. timer (snd (b st)) = timer st"
    "\<And>st. evaluations (snd (b st)) = evaluations st"
    "\<And>st. invocations (snd (b st)) = invocations st"
    "\<And>st. timers (snd (b st)) = timers st" "\<And>st. next_handle (snd (b st)) = next_handle st"
  shows "frame b"
  unfolding frame_def by (simp add: assms)

lemma frame_basic:
  "frame skip" "frame (ret v)" "frame (throw e)" "frame (external c out)"
  by (rule frameI; simp add: skip_def ret_def throw_def external_def)+

lemma frame_step:
  assumes a: "now s1 = now st" "timer s1 = timer st" "evaluations s1 = evaluations st"
      "invocations s1 = invocations st" "next_handle st \<le> next_handle s1"
      "\<forall>h. timers s1 h = timers st h
            \<or> (next_handle st \<le> h \<and> h < next_handle s1
                \<and> (\<exists>marker. timers s1 h = Some (now st + 300, RemoveMarker marker)))"
    and b: "now s2 = now s1" "timer s2 = timer s1" "evaluations s2 = evaluations s1"
      "invocations s2 = invocations s1" "next_handle s1 \<le> next_handle s2"
      "\<forall>h. timers s2 h = timers s1 h
            \<or> (next_handle s1 \<le> h \<and> h < next_handle s2
                \<and> (\<exists>marker. timers s2 h = Some (now s1 + 300, RemoveMarker marker)))"
  shows "now s2 = now st \<and> timer s2 = timer st \<and> evaluations s2 = evaluations st
      \<and> invocations s2 = invocations st \<and> next_handle st \<le> next_handle s2
      \<and> (\<forall>h. timers s2 h = timers st h
            \<or> (next_handle st \<le> h \<and> h < next_handle s2
                \<and> (\<exists>marker. timers s2 h = Some (now st + 300, RemoveMarker marker))))"
proof (intro conjI allI)
  fix h
  show "timers s2 h = timers st h
            \<or> (next_handle st \<le> h \<and> h < next_handle s2
                \<and> (\<exists>marker. timers s2 h = Some (now st + 300, RemoveMarker marker)))"
  proof (cases "timers s2 h = timers s1 h")
    case True
    from a(6) have "timers s1 h = timers st h
            \<or> (next_handle st \<le> h \<and> h < next_handle s1
                \<and> (\<exists>marker. timers s1 h = Some (now st + 300, RemoveMarker marker)))" by blast
    then show ?thesis using True b(5) by auto
  next
    case False
    with b(6) have "next_handle s1 \<le> h \<and> h < next_handle s2
                \<and> (\<exists>marker. timers s2 h = Some (now s1 + 300, RemoveMarker marker))" by blast
    then show ?thesis using a(1,5) by auto
  qed
qed (use a(1-5) b(1-5) in simp_all)

lemma frame_seq:
  assumes "frame a" "frame b"
  shows "frame (seq a b)"
  unfolding frame_def
proof (intro allI)
  fix st
  let ?s1 = "snd (a st)"
  let ?s2 = "snd (b ?s1)"
  note fa = assms(1) [unfolded frame_def, rule_format, of st]
  note fb = assms(2) [unfolded frame_def, rule_format, of ?s1]
  show "now (snd (seq a b st)) = now st
        \<and> timer (snd (seq a b st)) = timer st
        \<and> evaluations (snd (seq a b st)) = evaluations st
        \<and> invocations (snd (seq a b st)) = invocations st
        \<and> next_handle st \<le> next_handle (snd (seq a b st))
        \<and> (\<forall>h. timers (snd (seq a b st)) h = timers st h
              \<or> (next_handle st \<le> h \<and> h < next_handle (snd (seq a b st))
                  \<and> (\<exists>marker. timers (snd (seq a b st)) h
                                  = Some (now st + 300, RemoveMarker marker))))"
  proof (cases "fst (a st) = Normal")
    case True
    then have s: "snd (seq a b st) = ?s2" by (simp add: snd_seq)
    show ?thesis unfolding s
      by (rule frame_step [of ?s1 st ?s2]) (use fa fb in blast)+
  next
    case False
    then have s: "snd (seq a b st) = ?s1" by (simp add: snd_seq split: completion.splits)
    show ?thesis unfolding s using fa by blast
  qed
qed

lemma frame_try_catch: "frame a \<Longrightarrow> frame (try_catch a)"
  by (simp add: frame_def snd_try_catch)

lemmas frame_rules = frame_basic frame_seq frame_try_catch

lemma emit_frame: "frame (emit es n m :: (bool, page) block)"
  by (simp add: emit_def frame_rules split: event_source.splits option.splits)

lemma emit_candidates_frame: "frame (emit_candidates es m names)"
  by (induction names)
     (simp_all only: emit_candidates_Cons emit_candidates_Nil frame_rules emit_frame)

lemma try_globals_frame: "frame (try_globals gs m)"
proof (induction gs)
  case Nil
  show ?case by (simp only: try_globals_Nil frame_rules)
next
  case (Cons a gs)
  obtain fnName g where a: "a = (fnName, g)" by (cases a)
  show ?case unfolding a try_globals_Cons using Cons.IH
    by (cases g) (simp_all add: frame_rules)
qed

lemma click_if_match_frame: "frame (click_if_match btn txt cs)"
  by (induction cs)
     (simp_all only: click_if_match_Nil click_if_match_Cons frame_rules if_split, simp_all)

lemma click_buttons_frame: "frame (click_buttons bs)"
  by (induction bs)
     (simp_all only: click_buttons_Nil click_buttons_Cons frame_rules click_if_match_frame
        if_split, simp_all)

lemma last_resort_frame: "frame (last_resort_marker el)"
proof (cases el)
  case None
  then show ?thesis by (simp add: frame_def last_resort_marker_def)
next
  case (Some e)
  then show ?thesis
    unfolding frame_def by (cases "appendChild e") (simp_all add: last_resort_marker_Some)
qed

lemma strategies_frame: "\<forall>b \<in> set (strategies w m el). frame b"
  by (simp add: strategies_def primary_TavernHelper_def secondary_eventSource_def
        third_CustomEvent_def fourth_global_functions_def fifth_render_buttons_def
        frame_rules emit_frame emit_candidates_frame try_globals_frame click_buttons_frame
        last_resort_frame
        split: tavern_helper.splits option.splits event_source.splits event_types.splits)

lemma first_success_frame:
  assumes "\<forall>b \<in> set bs. frame b"
  shows "frame (first_success bs)"
  using assms
proof (induction bs)
  case Nil
  show ?case by (rule frameI) simp_all
next
  case (Cons s rest)
  have eq: "first_success (s # rest) = seq (\<lambda>st. case s st of (Return True, st') \<Rightarrow> (Return True, st')
                                              | (r, st') \<Rightarrow> (Normal, st'))
                                       (first_success rest)"
    by (rule ext) (simp add: seq_def split: prod.splits completion.splits bool.splits)
  have "frame (\<lambda>st. case s st of (Return True, st') \<Rightarrow> (Return True, st')
                                              | (r, st') \<Rightarrow> (Normal, st'))"
  proof -
    have "\<And>st. snd (case s st of (Return True, st') \<Rightarrow> (Return True, st')
                                              | (r, st') \<Rightarrow> (Normal, st')) = snd (s st)"
      by (simp split: prod.splits completion.splits bool.splits)
    then show ?thesis using Cons.prems by (simp add: frame_def)
  qed
  then show ?case unfolding eq using Cons by (simp add: frame_seq)
qed

lemma tryTriggerRerender_frame:
  "now (snd (tryTriggerRerender w m el st)) = now st
   \<and> timer (snd (tryTriggerRerender w m el st)) = timer st
   \<and> evaluations (snd (tryTriggerRerender w m el st)) = evaluations st
   \<and> invocations (snd (tryTriggerRerender w m el st)) = invocations st @ [m]
   \<and> next_handle st \<le> next_handle (snd (tryTriggerRerender w m el st))
   \<and> (\<forall>h. timers (snd (tryTriggerRerender w m el st)) h = timers st h
         \<or> (next_handle st \<le> h \<and> h < next_handle (snd (tryTriggerRerender w m el st))
             \<and> (\<exists>marker. timers (snd (tryTriggerRerender w m el st)) h
                             = Some (now st + 300, RemoveMarker marker))))"
proof -
  let ?st0 = "st\<lparr>invocations := invocations st @ [m]\<rparr>"
  have "frame (first_success (strategies w m el))"
    by (rule first_success_frame [OF strategies_frame])
  from this [unfolded frame_def, rule_format, of ?st0]
  show ?thesis
    unfolding tryTriggerRerender_first_success entered_def by simp
qed

section \<open>What tryTriggerRerender does to the page\<close>

lemma only_calls_basic:
  "only_calls skip" "only_calls (ret v)" "only_calls (throw e)" "only_calls (external c out)"
proof -
  show "only_calls skip" "only_calls (ret v)" "only_calls (throw e)"
    unfolding only_calls_def skip_def ret_def throw_def
    by (intro allI exI [of _ "[]"]; simp)+
  show "only_calls (external c out)"
    unfolding only_calls_def external_def
    by (intro allI exI [of _ "[c]"]) simp
qed

lemma only_calls_seq:
  assumes "only_calls a" "only_calls b"
  shows "only_calls (seq a b)"
  unfolding only_calls_def
proof
  fix st
  from assms(1) obtain xs where xs: "snd (a st) = st\<lparr>trace := trace st @ xs\<rparr>"
    unfolding only_calls_def by blast
  from assms(2) obtain ys where
    ys: "snd (b (snd (a st))) = (snd (a st))\<lparr>trace := trace (snd (a st)) @ ys\<rparr>"
    unfolding only_calls_def by blast
  show "\<exists>calls. snd (seq a b st) = st\<lparr>trace := trace st @ calls\<rparr>"
  proof (cases "fst (a st) = Normal")
    case True
    then have "snd (seq a b st) = st\<lparr>trace := trace st @ (xs @ ys)\<rparr>"
      using ys by (simp add: snd_seq xs)
    then show ?thesis by blast
  next
    case False
    then have "snd (seq a b st) = st\<lparr>trace := trace st @ xs\<rparr>"
      using xs by (simp add: snd_seq split: completion.splits)
    then show ?thesis by blast
  qed
qed

lemma only_calls_try_catch: "only_calls a \<Longrightarrow> only_calls (try_catch a)"
  by (simp add: only_calls_def snd_try_catch)

lemmas only_calls_rules = only_calls_basic only_calls_seq only_calls_try_catch

lemma emit_only_calls: "only_calls (emit es n m :: (bool, page) block)"
  by (simp add: emit_def only_calls_rules split: event_source.splits option.splits)

lemma emit_candidates_only_calls: "only_calls (emit_candidates es m names)"
  by (induction names)
     (simp_all only: emit_candidates_Cons emit_candidates_Nil only_calls_rules emit_only_calls)

lemma try_globals_only_calls: "only_calls (try_globals gs m)"
proof (induction gs)
  case Nil
  show ?case by (simp only: try_globals_Nil only_calls_rules)
next
  case (Cons a gs)
  obtain fnName g where a: "a = (fnName, g)" by (cases a)
  show ?case unfolding a try_globals_Cons using Cons.IH
    by (cases g) (simp_all add: only_calls_rules)
qed

lemma click_if_match_only_calls: "only_calls (click_if_match btn txt cs)"
  by (induction cs)
     (simp_all only: click_if_match_Nil click_if_match_Cons only_calls_rules if_split, simp_all)

lemma click_buttons_only_calls: "only_calls (click_buttons bs)"
  by (induction bs)
     (simp_all only: click_buttons_Nil click_buttons_Cons only_calls_rules
        click_if_match_only_calls if_split, simp_all)

lemma earlier_strategies_only_calls: "\<forall>b \<in> set (earlier_strategies w m el). only_calls b"
  by (simp add: earlier_strategies_def primary_TavernHelper_def secondary_eventSource_def
        third_CustomEvent_def fourth_global_functions_def fifth_render_buttons_def
        only_calls_rules emit_only_calls emit_candidates_only_calls try_globals_only_calls
        click_buttons_only_calls
        split: tavern_helper.splits option.splits event_source.splits event_types.splits)

lemma earlier_strategies_steady: "\<forall>b \<in> set (earlier_strategies w m el). steady b"
  by (simp add: earlier_strategies_def strategy_rules)

lemma first_success_only_calls:
  assumes "\<forall>b \<in> set bs. only_calls b"
  shows "only_calls (first_success bs)"
  using assms
proof (induction bs)
  case Nil
  show ?case unfolding only_calls_def by (intro allI exI [of _ "[]"]) simp
next
  case (Cons s rest)
  have eq: "first_success (s # rest) = seq (\<lambda>st. case s st of (Return True, st') \<Rightarrow> (Return True, st')
                                              | (r, st') \<Rightarrow> (Normal, st'))
                                       (first_success rest)"
    by (rule ext) (simp add: seq_def split: prod.splits completion.splits bool.splits)
  have "only_calls (\<lambda>st. case s st of (Return True, st') \<Rightarrow> (Return True, st')
                                              | (r, st') \<Rightarrow> (Normal, st'))"
  proof -
    have "\<And>st. snd (case s st of (Return True, st') \<Rightarrow> (Return True, st')
                                              | (r, st') \<Rightarrow> (Normal, st')) = snd (s st)"
      by (simp split: prod.splits completion.splits bool.splits)
    then show ?thesis using Cons.prems by (simp add: only_calls_def)
  qed
  then show ?case unfolding eq using Cons by (simp add: only_calls_seq)
qed

lemma first_success_snoc:
  "first_success (bs @ [l]) st =
     (case first_success bs st of
        (Return True, st') \<Rightarrow> (Return True, st')
      | (r, st') \<Rightarrow> (case l st' of
                      (Return True, st'') \<Rightarrow> (Return True, st'')
                    | (r', st'') \<Rightarrow> (Return False, st'')))"
  by (induction bs arbitrary: st)
     (simp_all split: prod.splits completion.splits bool.splits)

lemma strategies_snoc:
  "strategies w m el = earlier_strategies w m el @ [last_resort_marker el]"
  by (simp add: strategies_def earlier_strategies_def)

lemma tryTriggerRerender_effect:
  "\<exists>calls. tryTriggerRerender w m (Some el) st =
     (if \<exists>s \<in> set (earlier_strategies w m (Some el)). fst (s initial_page) = Return True
      then (Return True, st\<lparr>invocations := invocations st @ [m], trace := trace st @ calls\<rparr>)
      else case appendChild el of
             Returns \<Rightarrow>
               (Return True,
                st\<lparr>invocations := invocations st @ [m],
                   trace := trace st @ calls @ [AppendChild (next_node st)],
                   next_node := Suc (next_node st),
                   children := children st @ [next_node st],
                   records := records st
                      @ [\<lparr>mtype = ChildList, addedNodes = [marker_node], removedNodes = []\<rparr>],
                   next_handle := Suc (next_handle st),
                   timers := (timers st)(next_handle st
                                \<mapsto> (now st + 300, RemoveMarker (next_node st)))\<rparr>)
           | Throws \<Rightarrow>
               (Return False,
                st\<lparr>invocations := invocations st @ [m],
                   trace := trace st @ calls @ [AppendChild (next_node st)],
                   next_node := Suc (next_node st)\<rparr>))"
proof -
  let ?st0 = "st\<lparr>invocations := invocations st @ [m]\<rparr>"
  let ?five = "earlier_strategies w m (Some el)"
  let ?r = "first_success ?five ?st0"
  have flow: "fst ?r = Return (\<exists>s \<in> set ?five. fst (s initial_page) = Return True)"
    by (rule first_success_flow [OF earlier_strategies_steady])
  from first_success_only_calls [OF earlier_strategies_only_calls, of w m "Some el"]
  obtain calls where calls: "snd ?r = ?st0\<lparr>trace := trace ?st0 @ calls\<rparr>"
    unfolding only_calls_def by blast
  have run: "tryTriggerRerender w m (Some el) st =
     (case ?r of
        (Return True, st') \<Rightarrow> (Return True, st')
      | (r, st') \<Rightarrow> (case last_resort_marker (Some el) st' of
                      (Return True, st'') \<Rightarrow> (Return True, st'')
                    | (r', st'') \<Rightarrow> (Return False, st'')))"
    by (simp only: tryTriggerRerender_first_success strategies_snoc first_success_snoc
          entered_def snd_conv)
  show ?thesis
  proof (cases "\<exists>s \<in> set ?five. fst (s initial_page) = Return True")
    case True
    with flow have "fst ?r = Return True" by simp
    then have "?r = (Return True, ?st0\<lparr>trace := trace ?st0 @ calls\<rparr>)"
      using calls by (cases ?r) simp
    then have "tryTriggerRerender w m (Some el) st
                 = (Return True, st\<lparr>invocations := invocations st @ [m], trace := trace st @ calls\<rparr>)"
      unfolding run by simp
    with True show ?thesis by auto
  next
    case False
    with flow have "fst ?r = Return False" by simp
    then have r: "?r = (Return False, ?st0\<lparr>trace := trace ?st0 @ calls\<rparr>)"
      using calls by (cases ?r) simp
    show ?thesis
    proof (cases "appendChild el")
      case Returns
      have "tryTriggerRerender w m (Some el) st =
               (Return True,
                st\<lparr>invocations := invocations st @ [m],
                   trace := trace st @ calls @ [AppendChild (next_node st)],
                   next_node := Suc (next_node st),
                   children := children st @ [next_node st],
                   records := records st
                      @ [\<lparr>mtype = ChildList, addedNodes = [marker_node], removedNodes = []\<rparr>],
                   next_handle := Suc (next_handle st),
                   timers := (timers st)(next_handle st
                                \<mapsto> (now st + 300, RemoveMarker (next_node st)))\<rparr>)"
        unfolding run r by (simp add: last_resort_marker_Some Returns)
      with False Returns show ?thesis by auto
    next
      case Throws
      have "tryTriggerRerender w m (Some el) st =
               (Return False,
                st\<lparr>invocations := invocations st @ [m],
                   trace := trace st @ calls @ [AppendChild (next_node st)],
                   next_node := Suc (next_node st)\<rparr>)"
        unfolding run r by (simp add: last_resort_marker_Some Throws)
      with False Throws show ?thesis by auto
    qed
  qed
qed

section \<open>Ticks of the clock\<close>

lemma idle_tick:
  assumes "\<forall>h due cb. timers st h = Some (due, cb) \<longrightarrow> Suc (now st) < due"
  shows "tick env m st = st\<lparr>now := Suc (now st)\<rparr>"
proof -
  have "\<not> is_due (Suc (now st)) (timers st h)" for h
  proof (cases "timers st h")
    case None
    then show ?thesis by (simp add: is_due_def)
  next
    case (Some dc)
    obtain due cb where "dc = (due, cb)" by (cases dc)
    with Some assms have "Suc (now st) < due" by blast
    with Some \<open>dc = (due, cb)\<close> show ?thesis by (simp add: is_due_def)
  qed
  then have "due_handles (st\<lparr>now := Suc (now st)\<rparr>) = []"
    by (simp add: due_handles_def filter_empty_conv)
  then show ?thesis by (simp add: tick_def Let_def)
qed

lemma idle_ticks:
  assumes "\<forall>h due cb. timers st h = Some (due, cb) \<longrightarrow> now st + k < due"
  shows "(tick env m ^^ k) st = st\<lparr>now := now st + k\<rparr>"
  using assms
proof (induction k)
  case 0
  show ?case by simp
next
  case (Suc k)
  then have ih: "(tick env m ^^ k) st = st\<lparr>now := now st + k\<rparr>" by fastforce
  have "tick env m (st\<lparr>now := now st + k\<rparr>) = st\<lparr>now := now st + k\<rparr>\<lparr>now := Suc (now st + k)\<rparr>"
    using Suc.prems by (intro idle_tick [THEN trans]) auto
  then show ?case by (simp add: ih)
qed

lemma filter_upt_single:
  assumes "n < k" "\<And>h. h < k \<Longrightarrow> P h \<longleftrightarrow> h = n"
  shows "filter P [0 ..< k] = [n]"
proof -
  have 1: "filter P [0 ..< k] = filter (\<lambda>h. h = n) [0 ..< k]"
    using assms(2) by (intro filter_cong) auto
  obtain d where d: "k = Suc n + d"
    using assms(1) by (auto simp: less_iff_Suc_add)
  have "[0 ..< Suc n + d] = [0 ..< Suc n] @ [Suc n ..< Suc n + d]"
    by (rule upt_add_eq_append) simp
  then have 2: "[0 ..< k] = [0 ..< n] @ [n] @ [Suc n ..< k]" by (simp add: d)
  have 3: "filter (\<lambda>h. h = n) ([0 ..< n] @ [n] @ [Suc n ..< k]) = [n]"
    by (auto simp: filter_empty_conv)
  show ?thesis unfolding 1 by (subst 2) (rule 3)
qed

lemma ticks_then:
  assumes "(tick env m ^^ a) st = s1" "(tick env m ^^ b) s1 = s2"
  shows "(tick env m ^^ (a + b)) st = s2"
  using assms by (simp add: funpow_add add.commute [of a b])

lemma one_tick: "(tick env m ^^ 1) st = tick env m st"
  by simp

lemma tick_single:
  assumes h: "h < next_handle st" and entry: "timers st h = Some (due, cb)"
    and due: "due \<le> Suc (now st)"
    and others: "\<And>h' d c. h' \<noteq> h \<Longrightarrow> timers st h' = Some (d, c) \<Longrightarrow> Suc (now st) < d"
  shows "tick env m st
           = deliver (run_callback env m cb (clearTimeout h (st\<lparr>now := Suc (now st)\<rparr>)))"
proof -
  let ?s = "st\<lparr>now := Suc (now st)\<rparr>"
  have "due_handles ?s = [h]"
    unfolding due_handles_def
  proof (rule filter_upt_single)
    show "h < next_handle ?s" using h by simp
  next
    fix h' assume "h' < next_handle ?s"
    show "is_due (now ?s) (timers ?s h') \<longleftrightarrow> h' = h"
    proof (cases "h' = h")
      case True
      then show ?thesis using entry due by (simp add: is_due_def)
    next
      case False
      have "\<not> is_due (Suc (now st)) (timers st h')"
      proof (cases "timers st h'")
        case None
        then show ?thesis by (simp add: is_due_def)
      next
        case (Some dc)
        obtain d c where dc: "dc = (d, c)" by (cases dc)
        from others [OF False, of d c] Some dc show ?thesis by (simp add: is_due_def)
      qed
      then show ?thesis using False by simp
    qed
  qed
  then show ?thesis using entry by (simp add: tick_def Let_def)
qed

lemma significant_append: "significant (xs @ ys) \<longleftrightarrow> significant xs \<or> significant ys"
  by (induction xs) (auto split: mutation_type.splits)



section \<open>The last resort\<close>

lemma clear_inward: "a \<noteq> b \<Longrightarrow> (m(a \<mapsto> x))(b := None) = (m(b := None))(a \<mapsto> x)"
  by (rule fun_upd_twist)

lemma nudged_evaluation:
  "evaluation bare_window (Str ''12'') nudged_message st =
     (Normal,
      st\<lparr>timer := None, evaluations := evaluations st @ [now st],
         invocations := invocations st @ [Str ''12''],
         trace := trace st @ [DispatchEvent (Str ''12''), AppendChild (next_node st)],
         next_node := Suc (next_node st),
         children := children st @ [next_node st],
         records := records st
            @ [\<lparr>mtype = ChildList, addedNodes = [marker_node], removedNodes = []\<rparr>],
         next_handle := Suc (next_handle st),
         timers := (timers st)(next_handle st \<mapsto> (now st + 300, RemoveMarker (next_node st)))\<rparr>)"
  by (simp add: evaluation_def run_defs nudged_message_def bare_window_def bare_pre_def
        isFrontend_def isPreRendered_def FRONTEND_MARKERS_def)

lemmas nudged_defs =
  initial_page_def clearTimeout_def run_callback_def nudged_env_def nudged_evaluation
  deliver_def mutation_callback_def marker_node_def setTimeout_def DEBOUNCE_MS_def
  queue_record_def observed_by_def MESSAGE_OBSERVER_OPTIONS_def clear_inward

lemma nudged_page_0:
  "nudged_page
     = initial_page\<lparr>next_handle := 2, timers := [1 \<mapsto> (120, Evaluation)], timer := Some 1\<rparr>"
  by (simp add: nudged_page_def childlist_change_def nudged_defs)

lemma nudged_page_119:
  "(tick nudged_env (Str ''12'') ^^ 119) nudged_page = nudged_page\<lparr>now := 119\<rparr>"
proof -
  have "(tick nudged_env (Str ''12'') ^^ 119) nudged_page
          = nudged_page\<lparr>now := now nudged_page + 119\<rparr>"
    by (rule idle_ticks) (simp add: nudged_page_0 initial_page_def)
  then show ?thesis by (simp add: nudged_page_0 initial_page_def)
qed

lemma nudged_page_120:
  "(tick nudged_env (Str ''12'') ^^ 120) nudged_page
     = initial_page\<lparr>now := 120, next_handle := 4,
         timers := [2 \<mapsto> (420, RemoveMarker 0), 3 \<mapsto> (240, Evaluation)],
         trace := [DispatchEvent (Str ''12''), AppendChild 0], timer := Some 3, next_node := 1,
         children := [0], invocations := [Str ''12''], evaluations := [120]\<rparr>"
proof -
  have "tick nudged_env (Str ''12'') (nudged_page\<lparr>now := 119\<rparr>)
     = initial_page\<lparr>now := 120, next_handle := 4,
         timers := [2 \<mapsto> (420, RemoveMarker 0), 3 \<mapsto> (240, Evaluation)],
         trace := [DispatchEvent (Str ''12''), AppendChild 0], timer := Some 3, next_node := 1,
         children := [0], invocations := [Str ''12''], evaluations := [120]\<rparr>"
    by (subst tick_single [where h = 1 and due = 120 and cb = Evaluation])
       (simp_all add: nudged_page_0 nudged_defs split: if_splits)
  with ticks_then [OF nudged_page_119 one_tick] show ?thesis by simp
qed

lemma nudged_page_240:
  "(tick nudged_env (Str ''12'') ^^ 240) nudged_page
     = initial_page\<lparr>now := 240, next_handle := 6,
         timers := [2 \<mapsto> (420, RemoveMarker 0), 4 \<mapsto> (540, RemoveMarker 1),
                    5 \<mapsto> (360, Evaluation)],
         trace := [DispatchEvent (Str ''12''), AppendChild 0,
                   DispatchEvent (Str ''12''), AppendChild 1],
         timer := Some 5, next_node := 2, children := [0, 1],
         invocations := [Str ''12'', Str ''12''], evaluations := [120, 240]\<rparr>"
  (is "_ = ?s240")
proof -
  let ?s120 = "initial_page\<lparr>now := 120, next_handle := 4,
         timers := [2 \<mapsto> (420, RemoveMarker 0), 3 \<mapsto> (240, Evaluation)],
         trace := [DispatchEvent (Str ''12''), AppendChild 0], timer := Some 3, next_node := 1,
         children := [0], invocations := [Str ''12''], evaluations := [120]\<rparr>"
  have "(tick nudged_env (Str ''12'') ^^ 119) ?s120 = ?s120\<lparr>now := now ?s120 + 119\<rparr>"
    by (rule idle_ticks) (simp add: initial_page_def)
  then have idle: "(tick nudged_env (Str ''12'') ^^ 119) ?s120 = ?s120\<lparr>now := 239\<rparr>"
    by (simp add: initial_page_def)
  have busy: "(tick nudged_env (Str ''12'') ^^ 1) (?s120\<lparr>now := 239\<rparr>) = ?s240"
    unfolding one_tick
    by (subst tick_single [where h = 3 and due = 240 and cb = Evaluation])
       (simp_all add: nudged_defs split: if_splits)
  from ticks_then [OF ticks_then [OF nudged_page_120 idle] busy] show ?thesis by simp
qed

lemma nudged_page_360:
  "(tick nudged_env (Str ''12'') ^^ 360) nudged_page
     = initial_page\<lparr>now := 360, next_handle := 8,
         timers := [2 \<mapsto> (420, RemoveMarker 0), 4 \<mapsto> (540, RemoveMarker 1),
                    6 \<mapsto> (660, RemoveMarker 2), 7 \<mapsto> (480, Evaluation)],
         trace := [DispatchEvent (Str ''12''), AppendChild 0,
                   DispatchEvent (Str ''12''), AppendChild 1,
                   DispatchEvent (Str ''12''), AppendChild 2],
         timer := Some 7, next_node := 3, children := [0, 1, 2],
         invocations := [Str ''12'', Str ''12'', Str ''12''], evaluations := [120, 240, 360]\<rparr>"
  (is "_ = ?s360")
proof -
  let ?s240 = "initial_page\<lparr>now := 240, next_handle := 6,
         timers := [2 \<mapsto> (420, RemoveMarker 0), 4 \<mapsto> (540, RemoveMarker 1),
                    5 \<mapsto> (360, Evaluation)],
         trace := [DispatchEvent (Str ''12''), AppendChild 0,
                   DispatchEvent (Str ''12''), AppendChild 1],
         timer := Some 5, next_node := 2, children := [0, 1],
         invocations := [Str ''12'', Str ''12''], evaluations := [120, 240]\<rparr>"
  have "(tick nudged_env (Str ''12'') ^^ 119) ?s240 = ?s240\<lparr>now := now ?s240 + 119\<rparr>"
    by (rule idle_ticks) (simp add: initial_page_def)
  then have idle: "(tick nudged_env (Str ''12'') ^^ 119) ?s240 = ?s240\<lparr>now := 359\<rparr>"
    by (simp add: initial_page_def)
  have busy: "(tick nudged_env (Str ''12'') ^^ 1) (?s240\<lparr>now := 359\<rparr>) = ?s360"
    unfolding one_tick
    by (subst tick_single [where h = 5 and due = 360 and cb = Evaluation])
       (simp_all add: nudged_defs split: if_splits)
  from ticks_then [OF ticks_then [OF nudged_page_240 idle] busy] show ?thesis by simp
qed

lemma nudged_page_420:
  "(tick nudged_env (Str ''12'') ^^ 420) nudged_page
     = initial_page\<lparr>now := 420, next_handle := 9,
         timers := [4 \<mapsto> (540, RemoveMarker 1), 6 \<mapsto> (660, RemoveMarker 2),
                    8 \<mapsto> (540, Evaluation)],
         trace := [DispatchEvent (Str ''12''), AppendChild 0,
                   DispatchEvent (Str ''12''), AppendChild 1,
                   DispatchEvent (Str ''12''), AppendChild 2],
         timer := Some 8, next_node := 3, children := [1, 2],
         invocations := [Str ''12'', Str ''12'', Str ''12''], evaluations := [120, 240, 360]\<rparr>"
  (is "_ = ?s420")
proof -
  let ?s360 = "initial_page\<lparr>now := 360, next_handle := 8,
         timers := [2 \<mapsto> (420, RemoveMarker 0), 4 \<mapsto> (540, RemoveMarker 1),
                    6 \<mapsto> (660, RemoveMarker 2), 7 \<mapsto> (480, Evaluation)],
         trace := [DispatchEvent (Str ''12''), AppendChild 0,
                   DispatchEvent (Str ''12''), AppendChild 1,
                   DispatchEvent (Str ''12''), AppendChild 2],
         timer := Some 7, next_node := 3, children := [0, 1, 2],
         invocations := [Str ''12'', Str ''12'', Str ''12''], evaluations := [120, 240, 360]\<rparr>"
  have "(tick nudged_env (Str ''12'') ^^ 59) ?s360 = ?s360\<lparr>now := now ?s360 + 59\<rparr>"
    by (rule idle_ticks) (simp add: initial_page_def)
  then have idle: "(tick nudged_env (Str ''12'') ^^ 59) ?s360 = ?s360\<lparr>now := 419\<rparr>"
    by (simp add: initial_page_def)
  have busy: "(tick nudged_env (Str ''12'') ^^ 1) (?s360\<lparr>now := 419\<rparr>) = ?s420"
    unfolding one_tick
    by (subst tick_single [where h = 2 and due = 420 and cb = "RemoveMarker 0"])
       (simp_all add: nudged_defs split: if_splits)
  from ticks_then [OF ticks_then [OF nudged_page_360 idle] busy] show ?thesis by simp
qed

text \<open>
  Claim C8, as stated: after the scheduled removal of the marker has run, the children of
  the message text are exactly as before the strategy ran. The marker is inserted into the
  message text the script itself observes, so the insertion starts the debounce of the
  script's own observer. On a page whose front-end block stays unrendered and where only
  the last resort applies, the evaluation at 120 ms inserts marker 0 into a message text
  without children; the evaluations the insertions provoke insert markers 1 and 2 at 240 ms
  and 360 ms; when the removal of marker 0 has run at 420 ms, the children are the markers
  1 and 2.
\<close>

theorem last_resort_marker_observed_counterexample:
  "children ((tick nudged_env (Str ''12'') ^^ 119) nudged_page) = []
   \<and> trace ((tick nudged_env (Str ''12'') ^^ 120) nudged_page)
       = [DispatchEvent (Str ''12''), AppendChild 0]
   \<and> children ((tick nudged_env (Str ''12'') ^^ 120) nudged_page) = [0]
   \<and> timers ((tick nudged_env (Str ''12'') ^^ 120) nudged_page) 2 = Some (420, RemoveMarker 0)
   \<and> timers ((tick nudged_env (Str ''12'') ^^ 420) nudged_page) 2 = None
   \<and> children ((tick nudged_env (Str ''12'') ^^ 420) nudged_page) = [1, 2]"
  unfolding nudged_page_119 nudged_page_120 nudged_page_420
  by (simp add: nudged_page_0 initial_page_def)

text \<open>
  Claim C8, amended: the last resort appends a single hidden marker to the message text and
  schedules its removal 300 ms later; when the removal runs, it takes out that marker and no
  other child. So the children are then exactly as before the strategy ran, provided
  nothing else was inserted or removed in between; otherwise they are the children present
  at that moment without the marker: with nodes inserted after the marker, those from
  before the strategy ran followed by these nodes.
\<close>

theorem last_resort_marker_removes_own_marker:
  "\<forall>n \<in> set (children st). n < next_node st \<Longrightarrow> appendChild el = Returns \<Longrightarrow>
   (let st' = snd (last_resort_marker (Some el) st); marker = next_node st
    in fst (last_resort_marker (Some el) st) = Return True
     \<and> children st' = children st @ [marker]
     \<and> timers st' = (timers st)(next_handle st \<mapsto> (now st + 300, RemoveMarker marker))
     \<and> children (run_callback env m (RemoveMarker marker) st') = children st
     \<and> (\<forall>later. children (run_callback env m (RemoveMarker marker) later)
                    = removeAll marker (children later))
     \<and> (\<forall>later extra. children later = children st @ [marker] @ extra \<and> marker \<notin> set extra
           \<longrightarrow> children (run_callback env m (RemoveMarker marker) later) = children st @ extra))"
proof -
  assume fresh: "\<forall>n \<in> set (children st). n < next_node st" and ok: "appendChild el = Returns"
  define marker where "marker = next_node st"
  define st' where "st' = snd (last_resort_marker (Some el) st)"
  have st': "st' = st\<lparr>next_node := Suc marker,
                      trace := trace st @ [AppendChild marker],
                      children := children st @ [marker],
                      records := records st
                        @ [\<lparr>mtype = ChildList, addedNodes = [marker_node], removedNodes = []\<rparr>],
                      next_handle := Suc (next_handle st),
                      timers := (timers st)(next_handle st \<mapsto> (now st + 300, RemoveMarker marker))\<rparr>"
    by (simp add: st'_def marker_def last_resort_marker_Some ok)
  have res: "fst (last_resort_marker (Some el) st) = Return True"
    by (simp add: last_resort_marker_Some ok)
  have notin: "marker \<notin> set (children st)"
    using fresh by (auto simp: marker_def)
  have removal: "children (run_callback env m (RemoveMarker marker) later)
                   = removeAll marker (children later)" for later
    by (simp add: run_callback_def queue_record_def removeAll_id)
  have between: "children (run_callback env m (RemoveMarker marker) later) = children st @ extra"
    if "children later = children st @ [marker] @ extra" "marker \<notin> set extra" for later extra
    using that notin by (simp add: removal removeAll_id)
  have "children (run_callback env m (RemoveMarker marker) st') = children st @ []"
    by (rule between) (simp_all add: st')
  then have now: "children (run_callback env m (RemoveMarker marker) st') = children st"
    by simp
  show ?thesis
    unfolding Let_def st'_def [symmetric] marker_def [symmetric]
    using res st' now removal between by simp
qed

theorem last_resort_marker_removes_own_marker_witness:
  "children initial_page = []
   \<and> appendChild nudged_message = Returns
   \<and> children (snd (last_resort_marker (Some nudged_message) initial_page)) = [0]
   \<and> timers (snd (last_resort_marker (Some nudged_message) initial_page))
       = [1 \<mapsto> (300, RemoveMarker 0)]
   \<and> children (run_callback nudged_env Null (RemoveMarker 0)
                 (snd (last_resort_marker (Some nudged_message) initial_page))) = []
   \<and> children (run_callback nudged_env Null (RemoveMarker 0)
                 (initial_page\<lparr>children := [0, 1, 2]\<rparr>)) = [1, 2]"
proof -
  have 1: "\<forall>n \<in> set (children initial_page). n < next_node initial_page"
    by (simp add: initial_page_def)
  have 2: "appendChild nudged_message = Returns"
    by (simp add: nudged_message_def)
  note t = last_resort_marker_removes_own_marker [OF 1 2, of nudged_env Null, unfolded Let_def]
  have a: "children (snd (last_resort_marker (Some nudged_message) initial_page)) = [0]"
    using t by (simp add: initial_page_def)
  have b: "timers (snd (last_resort_marker (Some nudged_message) initial_page))
       = [1 \<mapsto> (300, RemoveMarker 0)]"
    using t by (simp add: initial_page_def)
  have c: "children (run_callback nudged_env Null (RemoveMarker 0)
                 (snd (last_resort_marker (Some nudged_message) initial_page))) = []"
    using t by (simp add: initial_page_def)
  have "children (initial_page\<lparr>children := [0, 1, 2]\<rparr>)
          = children initial_page @ [next_node initial_page] @ [1, 2]
        \<and> next_node initial_page \<notin> set [1, 2 :: nat]"
    by (simp add: initial_page_def)
  with t have "children (run_callback nudged_env Null (RemoveMarker (next_node initial_page))
                 (initial_page\<lparr>children := [0, 1, 2]\<rparr>)) = children initial_page @ [1, 2]"
    by blast
  then have d: "children (run_callback nudged_env Null (RemoveMarker 0)
                 (initial_page\<lparr>children := [0, 1, 2]\<rparr>)) = [1, 2]"
    by (simp add: initial_page_def)
  from 1 2 a b c d show ?thesis by (simp add: initial_page_def)
qed

section \<open>The debounced evaluation\<close>

lemma isFrontend_Str: "isFrontend (Str s) = Inr True \<or> isFrontend (Str s) = Inr False"
  by (simp add: isFrontend_def)

lemma scan_pres_result:
  "scan_pres ps (found, needs)
     = Inr (found \<or> (\<exists>p \<in> set ps. is_frontend_pre p),
            needs \<or> (\<exists>p \<in> set ps. is_frontend_pre p \<and> \<not> isPreRendered (Some p)))"
proof (induction ps arbitrary: found needs)
  case Nil
  show ?case by simp
next
  case (Cons p ps)
  show ?case
  proof (cases "is_frontend_pre p")
    case True
    then have "isFrontend (Str (trim (text_or_empty (pre_textContent p)))) = Inr True"
      by (simp add: is_frontend_pre_def)
    then show ?thesis using True Cons.IH by auto
  next
    case False
    then have "isFrontend (Str (trim (text_or_empty (pre_textContent p)))) = Inr False"
      using isFrontend_Str [of "trim (text_or_empty (pre_textContent p))"]
      by (simp add: is_frontend_pre_def)
    then show ?thesis using False Cons.IH by auto
  qed
qed

lemma evaluation_idle:
  assumes "\<forall>p \<in> set (pres el). is_frontend_pre p \<longrightarrow> isPreRendered (Some p)"
  shows "evaluation w m el st
           = (Return (), st\<lparr>timer := None, evaluations := evaluations st @ [now st]\<rparr>)"
proof -
  have "scan_pres (pres el) (False, False) = Inr (\<exists>p \<in> set (pres el). is_frontend_pre p, False)"
    using assms by (auto simp: scan_pres_result)
  then show ?thesis by (simp add: evaluation_def Let_def)
qed

lemma evaluation_attempts:
  assumes "\<exists>p \<in> set (pres el). is_frontend_pre p \<and> \<not> isPreRendered (Some p)"
  shows "scan_pres (pres el) (False, False) = Inr (True, True)"
  using assms by (auto simp: scan_pres_result)

lemma evaluation_attempt_result:
  assumes "scan_pres (pres el) (False, False) = Inr (True, True)"
  shows "snd (evaluation w m el st)
           = (let attempt = tryTriggerRerender w m (Some el)
                              (st\<lparr>timer := None, evaluations := evaluations st @ [now st]\<rparr>)
              in if fst attempt = Return True then snd attempt
                 else snd (setTimeout Retry 250 (snd attempt)))"
proof -
  let ?st0 = "st\<lparr>timer := None, evaluations := evaluations st @ [now st]\<rparr>"
  have "fst (tryTriggerRerender w m (Some el) ?st0) = Return True
        \<or> fst (tryTriggerRerender w m (Some el) ?st0) = Return False"
    by (auto simp: tryTriggerRerender_flow [of w m "Some el" ?st0 ?st0])
  then show ?thesis
    by (cases "tryTriggerRerender w m (Some el) ?st0")
       (auto simp: evaluation_def Let_def assms)
qed

text \<open>
  Claim C5, as stated: when the debounced evaluation finds a front-end code block that is
  already wrapped in a rendered iframe container, tryTriggerRerender is not invoked. A
  message with two front-end blocks, the first one rendered and the second one not, breaks
  it: the evaluation finds the rendered block and still invokes tryTriggerRerender.
\<close>

theorem evaluation_rendered_block_counterexample:
  "rendered_pre \<in> set (pres two_block_message)
   \<and> is_frontend_pre rendered_pre
   \<and> isPreRendered (Some rendered_pre)
   \<and> invocations initial_page = []
   \<and> invocations (snd (evaluation bare_window (Str ''12'') two_block_message initial_page))
       = [Str ''12'']"
proof -
  have 1: "is_frontend_pre rendered_pre" "\<not> isPreRendered (Some bare_pre)"
    "is_frontend_pre bare_pre" "isPreRendered (Some rendered_pre)"
    by (simp_all add: is_frontend_pre_def rendered_pre_def bare_pre_def isFrontend_def
          isPreRendered_def FRONTEND_MARKERS_def run_defs)
  have 2: "pres two_block_message = [rendered_pre, bare_pre]"
    by (simp add: two_block_message_def)
  have "scan_pres (pres two_block_message) (False, False) = Inr (True, True)"
    using 1 2 by (simp add: scan_pres_result)
  from evaluation_attempt_result [OF this]
  have "invocations (snd (evaluation bare_window (Str ''12'') two_block_message initial_page))
          = [Str ''12'']"
    by (simp add: run_defs two_block_message_def bare_window_def initial_page_def)
  with 1 2 show ?thesis by (simp add: initial_page_def)
qed

text \<open>
  Claim C5, amended: the debounced evaluation invokes tryTriggerRerender exactly when some
  front-end code block of the message is not wrapped in a rendered iframe container. When
  every front-end block it finds is wrapped, it invokes nothing and sets no timer. In v3 the
  evaluation makes no call at all once the message text contains an iframe.
\<close>

theorem evaluation_rerenders_iff_unrendered:
  "invocations (snd (evaluation w m el st))
     = (if \<exists>p \<in> set (pres el). is_frontend_pre p \<and> \<not> isPreRendered (Some p)
        then invocations st @ [m] else invocations st)
   \<and> ((\<forall>p \<in> set (pres el). is_frontend_pre p \<longrightarrow> isPreRendered (Some p))
        \<longrightarrow> evaluation w m el st
              = (Return (), st\<lparr>timer := None, evaluations := evaluations st @ [now st]\<rparr>))
   \<and> (contains_iframe el3 \<longrightarrow> trace (snd (evaluation_v3 w3 el3 key st3)) = trace st3)"
proof (intro conjI impI)
  show "invocations (snd (evaluation w m el st))
     = (if \<exists>p \<in> set (pres el). is_frontend_pre p \<and> \<not> isPreRendered (Some p)
        then invocations st @ [m] else invocations st)"
  proof (cases "\<exists>p \<in> set (pres el). is_frontend_pre p \<and> \<not> isPreRendered (Some p)")
    case True
    let ?st0 = "st\<lparr>timer := None, evaluations := evaluations st @ [now st]\<rparr>"
    have "invocations (snd (tryTriggerRerender w m (Some el) ?st0)) = invocations st @ [m]"
      using tryTriggerRerender_frame [of w m "Some el" ?st0] by simp
    then show ?thesis
      using True evaluation_attempt_result [OF evaluation_attempts [OF True], of w m st]
      by (simp add: Let_def setTimeout_def)
  next
    case False
    then have "\<forall>p \<in> set (pres el). is_frontend_pre p \<longrightarrow> isPreRendered (Some p)" by blast
    from evaluation_idle [OF this] False show ?thesis by simp
  qed
next
  assume "\<forall>p \<in> set (pres el). is_frontend_pre p \<longrightarrow> isPreRendered (Some p)"
  then show "evaluation w m el st
              = (Return (), st\<lparr>timer := None, evaluations := evaluations st @ [now st]\<rparr>)"
    by (rule evaluation_idle)
next
  assume "contains_iframe el3"
  then show "trace (snd (evaluation_v3 w3 el3 key st3)) = trace st3"
    by (simp add: evaluation_v3_def Let_def)
qed

theorem evaluation_rerenders_iff_unrendered_witness:
  "pres (two_block_message\<lparr>pres := [rendered_pre]\<rparr>) = [rendered_pre]
   \<and> isPreRendered (Some rendered_pre)
   \<and> contains_iframe two_block_message
   \<and> invocations (snd (evaluation bare_window (Str ''12'')
                         (two_block_message\<lparr>pres := [rendered_pre]\<rparr>) initial_page)) = []
   \<and> trace (snd (evaluation_v3 bare_window two_block_message ''12'' initial_page_v3)) = []"
proof -
  have 1: "\<forall>p \<in> set (pres (two_block_message\<lparr>pres := [rendered_pre]\<rparr>)).
       is_frontend_pre p \<longrightarrow> isPreRendered (Some p)"
    by (simp add: rendered_pre_def isPreRendered_def)
  have 2: "contains_iframe two_block_message" by (simp add: two_block_message_def)
  from evaluation_rerenders_iff_unrendered
         [where w = bare_window and m = "Str ''12''"
            and el = "two_block_message\<lparr>pres := [rendered_pre]\<rparr>" and st = initial_page
            and ?el3.0 = two_block_message and ?w3.0 = bare_window and key = "''12''"
            and ?st3.0 = initial_page_v3] 1 2
  show ?thesis
    by (simp add: initial_page_def initial_page_v3_def rendered_pre_def isPreRendered_def)
qed

lemma mutation_callback_keeps:
  "invocations (mutation_callback ms st) = invocations st"
  "evaluations (mutation_callback ms st) = evaluations st"
  "children (mutation_callback ms st) = children st"
  "now (mutation_callback ms st) = now st"
  "records (mutation_callback ms st) = records st"
  "trace (mutation_callback ms st) = trace st"
  "next_node (mutation_callback ms st) = next_node st"
  by (simp_all add: mutation_callback_def setTimeout_def clearTimeout_def Let_def
        split: option.splits)

lemma deliver_keeps:
  "invocations (deliver st) = invocations st"
  "evaluations (deliver st) = evaluations st"
  "children (deliver st) = children st"
  "now (deliver st) = now st"
  "records (deliver st) = []"
  "trace (deliver st) = trace st"
  "next_node (deliver st) = next_node st"
  by (simp_all add: deliver_def mutation_callback_keeps)

lemma deliver_nothing: "records st = [] \<Longrightarrow> deliver st = st"
  by (simp add: deliver_def)

lemma failed_attempt:
  assumes "fst (tryTriggerRerender w m (Some el) st) = Return False"
  shows "timers (snd (tryTriggerRerender w m (Some el) st)) = timers st"
    and "next_handle (snd (tryTriggerRerender w m (Some el) st)) = next_handle st"
    and "records (snd (tryTriggerRerender w m (Some el) st)) = records st"
    and "children (snd (tryTriggerRerender w m (Some el) st)) = children st"
proof -
  from tryTriggerRerender_effect [of w m el st] obtain calls where
    eff: "tryTriggerRerender w m (Some el) st =
     (if \<exists>s \<in> set (earlier_strategies w m (Some el)). fst (s initial_page) = Return True
      then (Return True, st\<lparr>invocations := invocations st @ [m], trace := trace st @ calls\<rparr>)
      else case appendChild el of
             Returns \<Rightarrow>
               (Return True,
                st\<lparr>invocations := invocations st @ [m],
                   trace := trace st @ calls @ [AppendChild (next_node st)],
                   next_node := Suc (next_node st),
                   children := children st @ [next_node st],
                   records := records st
                      @ [\<lparr>mtype = ChildList, addedNodes = [marker_node], removedNodes = []\<rparr>],
                   next_handle := Suc (next_handle st),
                   timers := (timers st)(next_handle st
                                \<mapsto> (now st + 300, RemoveMarker (next_node st)))\<rparr>)
           | Throws \<Rightarrow>
               (Return False,
                st\<lparr>invocations := invocations st @ [m],
                   trace := trace st @ calls @ [AppendChild (next_node st)],
                   next_node := Suc (next_node st)\<rparr>))"
    by blast
  have "snd (tryTriggerRerender w m (Some el) st)
          = st\<lparr>invocations := invocations st @ [m],
               trace := trace st @ calls @ [AppendChild (next_node st)],
               next_node := Suc (next_node st)\<rparr>"
    using assms unfolding eff by (simp split: if_splits outcome.splits)
  then show "timers (snd (tryTriggerRerender w m (Some el) st)) = timers st"
    and "next_handle (snd (tryTriggerRerender w m (Some el) st)) = next_handle st"
    and "records (snd (tryTriggerRerender w m (Some el) st)) = records st"
    and "children (snd (tryTriggerRerender w m (Some el) st)) = children st"
    by simp_all
qed

text \<open>
  Claim C7: when the immediate call of tryTriggerRerender returns false, the evaluation
  sets exactly one timer, due 250 ms later, whose callback calls tryTriggerRerender once
  more, with the same message id and message text; the failed call itself has set no timer
  and changed nothing in the message text. When the immediate call returns true, the
  evaluation sets no timer. Neither call sets a timer for a further attempt: the timers they add only remove
  markers. On a page with no other timer pending, tryTriggerRerender has been entered once
  until 250 ms after the evaluation, and twice from then. A marker that the second attempt
  inserts is a mutation of the observed message text like any other: the evaluation it
  starts is a new evaluation of the message, not a further attempt of this one.
\<close>

theorem evaluation_single_retry:
  "scan_pres (pres el) (False, False) = Inr (True, True) \<Longrightarrow>
   (let attempt = tryTriggerRerender w m (Some el)
                    (st\<lparr>timer := None, evaluations := evaluations st @ [now st]\<rparr>);
        st' = snd (evaluation w m el st)
    in (fst attempt = Return False \<longrightarrow>
          timers st' = (timers (snd attempt))(next_handle (snd attempt) \<mapsto> (now st + 250, Retry))
          \<and> next_handle st' = Suc (next_handle (snd attempt))
          \<and> timers (snd attempt) = timers st
          \<and> children st' = children st \<and> records st' = records st)
     \<and> (fst attempt = Return True \<longrightarrow> st' = snd attempt)
     \<and> (\<forall>h. timers (snd attempt) h = timers st h
             \<or> (\<exists>marker. timers (snd attempt) h = Some (now st + 300, RemoveMarker marker)))
     \<and> invocations st' = invocations st @ [m]
     \<and> run_callback env m Retry st2
         = snd (tryTriggerRerender (fst (env (now st2))) m (Some (snd (env (now st2)))) st2)
     \<and> invocations (run_callback env m Retry st2) = invocations st2 @ [m]
     \<and> (\<forall>h. timers (run_callback env m Retry st2) h = timers st2 h
             \<or> (\<exists>marker. timers (run_callback env m Retry st2) h
                             = Some (now st2 + 300, RemoveMarker marker)))
     \<and> (fst attempt = Return False \<and> (\<forall>h. timers st h = None) \<and> records st = [] \<longrightarrow>
          (\<forall>k<250. invocations ((tick env m ^^ k) (deliver st')) = invocations st @ [m])
          \<and> invocations ((tick env m ^^ 250) (deliver st')) = invocations st @ [m, m]))"
proof -
  assume scan: "scan_pres (pres el) (False, False) = Inr (True, True)"
  let ?st0 = "st\<lparr>timer := None, evaluations := evaluations st @ [now st]\<rparr>"
  let ?attempt = "tryTriggerRerender w m (Some el) ?st0"
  let ?st' = "snd (evaluation w m el st)"
  note result = evaluation_attempt_result [OF scan, of w m st]
  note f0 = tryTriggerRerender_frame [of w m "Some el" ?st0]
  have now: "now (snd ?attempt) = now st" using f0 by simp
  have failed: "?st' = (snd ?attempt)\<lparr>next_handle := Suc (next_handle (snd ?attempt)),
                    timers := (timers (snd ?attempt))
                                (next_handle (snd ?attempt) \<mapsto> (now st + 250, Retry))\<rparr>"
    if "fst ?attempt = Return False"
    using that result now by (simp add: Let_def setTimeout_def)
  have 1: "timers ?st'
             = (timers (snd ?attempt))(next_handle (snd ?attempt) \<mapsto> (now st + 250, Retry))
           \<and> next_handle ?st' = Suc (next_handle (snd ?attempt))
           \<and> timers (snd ?attempt) = timers st
           \<and> children ?st' = children st \<and> records ?st' = records st"
    if "fst ?attempt = Return False"
    using failed [OF that] failed_attempt [OF that] by simp
  have 2: "?st' = snd ?attempt" if "fst ?attempt = Return True"
    using that result by (simp add: Let_def)
  have 3: "\<forall>h. timers (snd ?attempt) h = timers st h
             \<or> (\<exists>marker. timers (snd ?attempt) h = Some (now st + 300, RemoveMarker marker))"
    using f0 by auto
  have 4: "invocations ?st' = invocations st @ [m]"
    using result f0 by (simp add: Let_def setTimeout_def)
  note f2 = tryTriggerRerender_frame [of "fst (env (now st2))" m "Some (snd (env (now st2)))" st2]
  have retry: "invocations (run_callback env m Retry s) = invocations s @ [m]" for s
    using tryTriggerRerender_frame [of "fst (env (now s))" m "Some (snd (env (now s)))" s]
    by (simp add: run_callback_def)
  have 5: "invocations (run_callback env m Retry st2) = invocations st2 @ [m]"
    by (rule retry)
  have 8: "run_callback env m Retry st2
         = snd (tryTriggerRerender (fst (env (now st2))) m (Some (snd (env (now st2)))) st2)"
    by (simp add: run_callback_def)
  have 6: "\<forall>h. timers (run_callback env m Retry st2) h = timers st2 h
             \<or> (\<exists>marker. timers (run_callback env m Retry st2) h
                             = Some (now st2 + 300, RemoveMarker marker))"
    using f2 by (auto simp: run_callback_def)
  have 7: "(\<forall>k<250. invocations ((tick env m ^^ k) (deliver ?st')) = invocations st @ [m])
          \<and> invocations ((tick env m ^^ 250) (deliver ?st')) = invocations st @ [m, m]"
    if no: "fst ?attempt = Return False" and calm: "\<forall>h. timers st h = None" "records st = []"
  proof -
    let ?nh = "next_handle st"
    note fa = failed_attempt [OF no]
    have t: "timers ?st' = Map.empty(?nh \<mapsto> (now st + 250, Retry))"
      using 1 [OF no] fa calm by (auto simp: fun_eq_iff)
    have nh: "next_handle ?st' = Suc ?nh" using 1 [OF no] fa by simp
    have n: "now ?st' = now st" using failed [OF no] now by simp
    have d: "deliver ?st' = ?st'" using 1 [OF no] calm by (simp add: deliver_nothing)
    have idle: "(tick env m ^^ k) ?st' = ?st'\<lparr>now := now ?st' + k\<rparr>" if "k < 250" for k
      by (rule idle_ticks) (use that in \<open>simp add: t n\<close>)
    have a: "\<forall>k<250. invocations ((tick env m ^^ k) (deliver ?st')) = invocations st @ [m]"
      using idle 4 by (simp add: d)
    let ?s = "?st'\<lparr>now := now st + 249\<rparr>"
    have "(tick env m ^^ (249 + 1)) ?st'
            = deliver (run_callback env m Retry (clearTimeout ?nh (?s\<lparr>now := Suc (now ?s)\<rparr>)))"
    proof (rule ticks_then)
      show "(tick env m ^^ 249) ?st' = ?s" using idle [of 249] by (simp add: n)
      show "(tick env m ^^ 1) ?s
              = deliver (run_callback env m Retry (clearTimeout ?nh (?s\<lparr>now := Suc (now ?s)\<rparr>)))"
        unfolding one_tick
        by (rule tick_single [where due = "now st + 250"]) (simp_all add: t nh split: if_splits)
    qed
    moreover have "invocations (deliver (run_callback env m Retry
                      (clearTimeout ?nh (?s\<lparr>now := Suc (now ?s)\<rparr>))))
                     = invocations st @ [m, m]"
      using 4 by (simp add: deliver_keeps retry clearTimeout_def)
    ultimately have "invocations ((tick env m ^^ 250) (deliver ?st')) = invocations st @ [m, m]"
      by (simp add: d)
    with a show ?thesis by simp
  qed
  show ?thesis
    unfolding Let_def using 1 2 3 4 5 6 7 8 by blast
qed

theorem evaluation_single_retry_witness:
  "scan_pres (pres stubborn_message) (False, False) = Inr (True, True)
   \<and> fst (tryTriggerRerender bare_window (Str ''12'') (Some stubborn_message)
            (initial_page\<lparr>timer := None, evaluations := [0]\<rparr>)) = Return False
   \<and> timers (snd (evaluation bare_window (Str ''12'') stubborn_message initial_page))
       = [1 \<mapsto> (250, Retry)]
   \<and> invocations (run_callback (\<lambda>t. (bare_window, stubborn_message)) (Str ''12'') Retry
                    (clearTimeout 1
                       (snd (evaluation bare_window (Str ''12'') stubborn_message initial_page))))
       = [Str ''12'', Str ''12'']
   \<and> timers (run_callback (\<lambda>t. (bare_window, stubborn_message)) (Str ''12'') Retry
               (clearTimeout 1
                  (snd (evaluation bare_window (Str ''12'') stubborn_message initial_page))))
       = Map.empty
   \<and> invocations ((tick (\<lambda>t. (bare_window, stubborn_message)) (Str ''12'') ^^ 249)
                    (deliver (snd (evaluation bare_window (Str ''12'') stubborn_message
                                     initial_page))))
       = [Str ''12'']
   \<and> invocations ((tick (\<lambda>t. (bare_window, stubborn_message)) (Str ''12'') ^^ 250)
                    (deliver (snd (evaluation bare_window (Str ''12'') stubborn_message
                                     initial_page))))
       = [Str ''12'', Str ''12'']"
proof -
  have scan: "scan_pres (pres stubborn_message) (False, False) = Inr (True, True)"
    by (simp add: stubborn_message_def bare_pre_def isFrontend_def isPreRendered_def
          FRONTEND_MARKERS_def run_defs)
  have attempt: "tryTriggerRerender bare_window (Str ''12'') (Some stubborn_message)
            (initial_page\<lparr>timer := None, evaluations := [0]\<rparr>)
          = (Return False,
             initial_page\<lparr>timer := None, evaluations := [0], invocations := [Str ''12''],
               trace := [DispatchEvent (Str ''12''), AppendChild 0], next_node := 1\<rparr>)"
    by (simp add: run_defs stubborn_message_def bare_window_def initial_page_def)
  note t = evaluation_single_retry [OF scan, of bare_window "Str ''12''" initial_page
             "\<lambda>t. (bare_window, stubborn_message)"
             "clearTimeout 1 (snd (evaluation bare_window (Str ''12'') stubborn_message
                                     initial_page))",
             unfolded Let_def]
  have timers: "timers (snd (evaluation bare_window (Str ''12'') stubborn_message initial_page))
       = [1 \<mapsto> (250, Retry)]"
    using t attempt by (simp add: initial_page_def)
  have st': "snd (evaluation bare_window (Str ''12'') stubborn_message initial_page)
          = initial_page\<lparr>timer := None, evaluations := [0], invocations := [Str ''12''],
               trace := [DispatchEvent (Str ''12''), AppendChild 0], next_node := 1,
               next_handle := 2, timers := [1 \<mapsto> (250, Retry)]\<rparr>"
    using attempt
    by (simp add: evaluation_attempt_result [OF scan] Let_def setTimeout_def initial_page_def)
  have retry: "invocations (run_callback (\<lambda>t. (bare_window, stubborn_message)) (Str ''12'') Retry
                    (clearTimeout 1
                       (snd (evaluation bare_window (Str ''12'') stubborn_message initial_page))))
       = [Str ''12'', Str ''12'']"
  proof -
    let ?c = "clearTimeout 1 (snd (evaluation bare_window (Str ''12'') stubborn_message
                                     initial_page))"
    from t have "invocations (run_callback (\<lambda>t. (bare_window, stubborn_message)) (Str ''12'')
                                Retry ?c)
                   = invocations ?c @ [Str ''12'']"
      by blast
    then show ?thesis unfolding st' by (simp add: clearTimeout_def initial_page_def)
  qed
  have none: "timers (run_callback (\<lambda>t. (bare_window, stubborn_message)) (Str ''12'') Retry
               (clearTimeout 1
                  (snd (evaluation bare_window (Str ''12'') stubborn_message initial_page))))
       = Map.empty"
    unfolding st'
    by (simp add: run_callback_def clearTimeout_def run_defs stubborn_message_def
          bare_window_def initial_page_def)
  have calm: "fst (tryTriggerRerender bare_window (Str ''12'') (Some stubborn_message)
            (initial_page\<lparr>timer := None, evaluations := evaluations initial_page @ [now initial_page]\<rparr>))
          = Return False \<and> (\<forall>h. timers initial_page h = None) \<and> records initial_page = []"
    using attempt by (simp add: initial_page_def)
  with t have line: "(\<forall>k<250. invocations ((tick (\<lambda>t. (bare_window, stubborn_message)) (Str ''12'') ^^ k)
                    (deliver (snd (evaluation bare_window (Str ''12'') stubborn_message
                                     initial_page))))
                 = invocations initial_page @ [Str ''12''])
       \<and> invocations ((tick (\<lambda>t. (bare_window, stubborn_message)) (Str ''12'') ^^ 250)
                    (deliver (snd (evaluation bare_window (Str ''12'') stubborn_message
                                     initial_page))))
           = invocations initial_page @ [Str ''12'', Str ''12'']"
    by blast
  then have "invocations ((tick (\<lambda>t. (bare_window, stubborn_message)) (Str ''12'') ^^ 249)
                    (deliver (snd (evaluation bare_window (Str ''12'') stubborn_message
                                     initial_page))))
       = [Str ''12'']"
    by (simp add: initial_page_def)
  with scan attempt timers retry none line show ?thesis by (simp add: initial_page_def)
qed

section \<open>Observers\<close>

lemma observeMesText_keeps_at_most_one:
  assumes "at_most_one_observer s"
  shows "at_most_one_observer (observeMesText mesTextEl s)"
proof (cases mesTextEl)
  case None
  then show ?thesis using assms by (simp add: observeMesText_def)
next
  case (Some el)
  show ?thesis
  proof (cases "node_id el \<in> observed s")
    case True
    then show ?thesis using assms Some by (simp add: observeMesText_def)
  next
    case False
    then have none: "filter (\<lambda>mo. target mo = node_id el) (observers s) = []"
      using assms by (simp add: at_most_one_observer_def)
    show ?thesis
    proof (cases "closest_mes el")
      case None
      then show ?thesis
        using assms Some False by (auto simp: observeMesText_def Let_def at_most_one_observer_def)
    next
      case (Some mesEl)
      then show ?thesis
        using assms \<open>mesTextEl = Some el\<close> False none
        by (auto simp: observeMesText_def Let_def at_most_one_observer_def)
    qed
  qed
qed

lemma observeMesText_at_most_one:
  "length (filter (\<lambda>mo. target mo = node)
             (observers (foldl (\<lambda>s el. observeMesText el s) \<lparr>observers = [], observed = {}\<rparr> els)))
     \<le> 1"
proof -
  have "at_most_one_observer (foldl (\<lambda>s el. observeMesText el s) s els)"
    if "at_most_one_observer s" for s
    using that by (induction els arbitrary: s) (simp_all add: observeMesText_keeps_at_most_one)
  moreover have "at_most_one_observer \<lparr>observers = [], observed = {}\<rparr>"
    by (simp add: at_most_one_observer_def)
  ultimately show ?thesis by (simp add: at_most_one_observer_def)
qed

lemma observeMesText_twice:
  "observeMesText (Some el) (observeMesText (Some el) s) = observeMesText (Some el) s"
  by (simp add: observeMesText_def Let_def split: option.splits)

text \<open>
  Claim C2: for every message text, at most one mutation observer is ever attached to it,
  because a second call of observeMesText on the same element returns at once. The
  userscript does so (\<open>observeMesText_at_most_one\<close>, \<open>observeMesText_twice\<close>). The v3
  observeMesText reads the set of observed elements and never adds to it: called twice on
  one message text, it attaches two observers.
\<close>

theorem observeMesText_v3_attaches_twice:
  "observedElements (observeMesText_v3 demo_element initial_page_v3) = {}
   \<and> length (filter (\<lambda>(node, opts). node = node_id demo_element)
        (attached (observeMesText_v3 demo_element
                     (observeMesText_v3 demo_element initial_page_v3)))) = 2"
  by (simp add: observeMesText_v3_def initial_page_v3_def demo_element_def Let_def)

text \<open>
  Claim C10: a change of attributes never starts an evaluation. The callback of the
  userscript observer would count a record of type \<open>attributes\<close> as significant, but the
  observer is registered with \<open>attributes: false\<close>, so the browser hands it no such
  record: whatever the sequence of attribute-only changes, the page, and with it the table
  of timers, stays as it was.
\<close>

theorem attribute_changes_start_no_timer:
  "\<forall>batch \<in> set batches. \<forall>c \<in> set batch. mtype c = Attributes \<Longrightarrow>
   foldl (\<lambda>s batch. notify MESSAGE_OBSERVER_OPTIONS batch s) st batches = st
   \<and> (\<forall>batch \<in> set batches. batch \<noteq> [] \<longrightarrow> significant batch)
   \<and> (\<forall>mo \<in> set (observers (observeMesText mesTextEl state)).
         mo \<in> set (observers state) \<or> options mo = MESSAGE_OBSERVER_OPTIONS)
   \<and> \<not> attributes MESSAGE_OBSERVER_OPTIONS"
proof -
  assume only: "\<forall>batch \<in> set batches. \<forall>c \<in> set batch. mtype c = Attributes"
  have none: "notify MESSAGE_OBSERVER_OPTIONS batch s = s"
    if "\<forall>c \<in> set batch. mtype c = Attributes" for batch s
  proof -
    have "filter (observed_by MESSAGE_OBSERVER_OPTIONS) batch = []"
      using that by (auto simp: filter_empty_conv observed_by_def MESSAGE_OBSERVER_OPTIONS_def)
    then show ?thesis by (simp add: notify_def)
  qed
  have 1: "foldl (\<lambda>s batch. notify MESSAGE_OBSERVER_OPTIONS batch s) st batches = st"
    using only by (induction batches arbitrary: st) (simp_all add: none)
  have 2: "significant batch" if "\<forall>c \<in> set batch. mtype c = Attributes" "batch \<noteq> []" for batch
    using that by (cases batch) simp_all
  have 3: "\<forall>mo \<in> set (observers (observeMesText mesTextEl state)).
         mo \<in> set (observers state) \<or> options mo = MESSAGE_OBSERVER_OPTIONS"
    by (auto simp: observeMesText_def Let_def split: option.splits)
  have 4: "\<not> attributes MESSAGE_OBSERVER_OPTIONS"
    by (simp add: MESSAGE_OBSERVER_OPTIONS_def)
  from 1 2 3 4 only show ?thesis by blast
qed

theorem attribute_changes_start_no_timer_witness:
  "mtype attribute_change = Attributes
   \<and> foldl (\<lambda>s batch. notify MESSAGE_OBSERVER_OPTIONS batch s) initial_page
        [[attribute_change], [attribute_change, attribute_change]] = initial_page
   \<and> timers (mutation_callback [attribute_change] initial_page) = [1 \<mapsto> (120, Evaluation)]"
proof -
  have 1: "\<forall>batch \<in> set [[attribute_change], [attribute_change, attribute_change]].
      \<forall>c \<in> set batch. mtype c = Attributes"
    by (simp add: attribute_change_def)
  have 2: "timers (mutation_callback [attribute_change] initial_page) = [1 \<mapsto> (120, Evaluation)]"
    by (simp add: mutation_callback_def attribute_change_def initial_page_def setTimeout_def
          DEBOUNCE_MS_def Let_def)
  have 3: "mtype attribute_change = Attributes" by (simp add: attribute_change_def)
  from attribute_changes_start_no_timer [OF 1, of initial_page] 2 3
  show ?thesis by blast
qed

section \<open>Debouncing in the userscript\<close>

lemma adds_no_evaluation_refl: "adds_no_evaluation s s"
  by (simp add: adds_no_evaluation_def)

lemma adds_no_evaluation_trans:
  assumes "adds_no_evaluation s s1" "adds_no_evaluation s1 s2"
  shows "adds_no_evaluation s s2"
  unfolding adds_no_evaluation_def
proof (intro conjI allI)
  show "now s2 = now s" using assms by (simp add: adds_no_evaluation_def)
  show "next_handle s \<le> next_handle s2" using assms by (simp add: adds_no_evaluation_def)
  fix h
  have 1: "timers s1 h = timers s h
            \<or> (next_handle s \<le> h \<and> h < next_handle s1
                \<and> (\<exists>due cb. timers s1 h = Some (due, cb) \<and> cb \<noteq> Evaluation))"
    using assms(1) by (simp add: adds_no_evaluation_def)
  have 2: "timers s2 h = timers s1 h
            \<or> (next_handle s1 \<le> h \<and> h < next_handle s2
                \<and> (\<exists>due cb. timers s2 h = Some (due, cb) \<and> cb \<noteq> Evaluation))"
    using assms(2) by (simp add: adds_no_evaluation_def)
  have 3: "next_handle s \<le> next_handle s1" "next_handle s1 \<le> next_handle s2"
    using assms by (simp_all add: adds_no_evaluation_def)
  show "timers s2 h = timers s h
            \<or> (next_handle s \<le> h \<and> h < next_handle s2
                \<and> (\<exists>due cb. timers s2 h = Some (due, cb) \<and> cb \<noteq> Evaluation))"
  proof (cases "timers s2 h = timers s1 h")
    case True
    with 1 3 show ?thesis by auto
  next
    case False
    with 2 3 show ?thesis by auto
  qed
qed

lemma adds_no_evaluation_entries:
  assumes "wf_timers s" "adds_no_evaluation s s'"
  shows "wf_timers s'"
    and "timers s' h = Some (due, Evaluation) \<longleftrightarrow> timers s h = Some (due, Evaluation)"
proof -
  have step: "timers s' h = timers s h
            \<or> (next_handle s \<le> h \<and> h < next_handle s'
                \<and> (\<exists>due cb. timers s' h = Some (due, cb) \<and> cb \<noteq> Evaluation))" for h
    using assms(2) by (simp add: adds_no_evaluation_def)
  have le: "next_handle s \<le> next_handle s'"
    using assms(2) by (simp add: adds_no_evaluation_def)
  have old: "0 < h \<and> h < next_handle s" if "timers s h \<noteq> None" for h
    using assms(1) that by (simp add: wf_timers_def)
  have pos: "0 < next_handle s" using assms(1) by (simp add: wf_timers_def)
  show "wf_timers s'"
    unfolding wf_timers_def
  proof (intro conjI allI impI)
    show "0 < next_handle s'" using pos le by simp
    fix h assume h: "timers s' h \<noteq> None"
    from step [of h] show "0 < h"
    proof
      assume "timers s' h = timers s h"
      with h old show ?thesis by simp
    next
      assume "next_handle s \<le> h \<and> h < next_handle s'
                \<and> (\<exists>due cb. timers s' h = Some (due, cb) \<and> cb \<noteq> Evaluation)"
      with pos show ?thesis by simp
    qed
    from step [of h] show "h < next_handle s'"
    proof
      assume "timers s' h = timers s h"
      with h old [of h] le show ?thesis by simp
    next
      assume "next_handle s \<le> h \<and> h < next_handle s'
                \<and> (\<exists>due cb. timers s' h = Some (due, cb) \<and> cb \<noteq> Evaluation)"
      then show ?thesis by simp
    qed
  qed
  show "timers s' h = Some (due, Evaluation) \<longleftrightarrow> timers s h = Some (due, Evaluation)"
  proof
    assume a: "timers s' h = Some (due, Evaluation)"
    from step [of h] show "timers s h = Some (due, Evaluation)"
    proof
      assume "timers s' h = timers s h"
      with a show ?thesis by simp
    next
      assume "next_handle s \<le> h \<and> h < next_handle s'
                \<and> (\<exists>due cb. timers s' h = Some (due, cb) \<and> cb \<noteq> Evaluation)"
      with a show ?thesis by auto
    qed
  next
    assume a: "timers s h = Some (due, Evaluation)"
    then have "h < next_handle s" using old [of h] by simp
    with step [of h] have "timers s' h = timers s h" by auto
    with a show "timers s' h = Some (due, Evaluation)" by simp
  qed
qed

lemma tryTriggerRerender_adds_no_evaluation:
  "adds_no_evaluation st (snd (tryTriggerRerender w m el st))"
  unfolding adds_no_evaluation_def
proof (intro conjI allI)
  note f = tryTriggerRerender_frame [of w m el st]
  show "now (snd (tryTriggerRerender w m el st)) = now st" using f by simp
  show "next_handle st \<le> next_handle (snd (tryTriggerRerender w m el st))" using f by simp
  fix h
  from f have "timers (snd (tryTriggerRerender w m el st)) h = timers st h
         \<or> (next_handle st \<le> h \<and> h < next_handle (snd (tryTriggerRerender w m el st))
             \<and> (\<exists>marker. timers (snd (tryTriggerRerender w m el st)) h
                             = Some (now st + 300, RemoveMarker marker)))"
    by blast
  then show "timers (snd (tryTriggerRerender w m el st)) h = timers st h
         \<or> (next_handle st \<le> h \<and> h < next_handle (snd (tryTriggerRerender w m el st))
             \<and> (\<exists>due cb. timers (snd (tryTriggerRerender w m el st)) h = Some (due, cb)
                   \<and> cb \<noteq> Evaluation))"
    by auto
qed

lemma setTimeout_Retry_adds_no_evaluation:
  "adds_no_evaluation s (snd (setTimeout Retry delay s))"
  by (simp add: adds_no_evaluation_def setTimeout_def)

lemma evaluation_effect:
  "timer (snd (evaluation w m el st)) = None
   \<and> evaluations (snd (evaluation w m el st)) = evaluations st @ [now st]
   \<and> adds_no_evaluation st (snd (evaluation w m el st))"
proof -
  let ?st0 = "st\<lparr>timer := None, evaluations := evaluations st @ [now st]\<rparr>"
  let ?attempt = "tryTriggerRerender w m (Some el) ?st0"
  have st0: "adds_no_evaluation st ?st0" by (simp add: adds_no_evaluation_def)
  show ?thesis
  proof (cases "\<exists>p \<in> set (pres el). is_frontend_pre p \<and> \<not> isPreRendered (Some p)")
    case False
    then have "\<forall>p \<in> set (pres el). is_frontend_pre p \<longrightarrow> isPreRendered (Some p)" by blast
    from evaluation_idle [OF this, of w m st] st0 show ?thesis by simp
  next
    case True
    note result = evaluation_attempt_result [OF evaluation_attempts [OF True], of w m st]
    note f = tryTriggerRerender_frame [of w m "Some el" ?st0]
    have a: "adds_no_evaluation st (snd ?attempt)"
      by (rule adds_no_evaluation_trans [OF st0 tryTriggerRerender_adds_no_evaluation])
    show ?thesis
    proof (cases "fst ?attempt = Return True")
      case True
      with result have "snd (evaluation w m el st) = snd ?attempt" by (simp add: Let_def)
      with f a show ?thesis by simp
    next
      case False
      with result have r: "snd (evaluation w m el st) = snd (setTimeout Retry 250 (snd ?attempt))"
        by (simp add: Let_def)
      have "adds_no_evaluation st (snd (setTimeout Retry 250 (snd ?attempt)))"
        by (rule adds_no_evaluation_trans [OF a setTimeout_Retry_adds_no_evaluation])
      with r f show ?thesis by (simp add: setTimeout_def)
    qed
  qed
qed

lemma timers_ok_evaluation_handle:
  assumes "timers_ok st" "timers st h = Some (due, Evaluation)"
  shows "timer st = Some h"
proof (cases "timer st")
  case None
  with assms show ?thesis by (simp add: timers_ok_def)
next
  case (Some h0)
  with assms have "h = h0" by (auto simp: timers_ok_def)
  with Some show ?thesis by simp
qed

lemma wf_timers_clearTimeout: "wf_timers st \<Longrightarrow> wf_timers (clearTimeout h st)"
  by (simp add: wf_timers_def clearTimeout_def)

lemma fire_evaluation:
  assumes ok: "timers_ok st" and entry: "timers st h = Some (due, Evaluation)"
  shows "timers_ok (run_callback env m Evaluation (clearTimeout h st))"
    and "timer (run_callback env m Evaluation (clearTimeout h st)) = None"
    and "evaluations (run_callback env m Evaluation (clearTimeout h st)) = evaluations st @ [now st]"
    and "now (run_callback env m Evaluation (clearTimeout h st)) = now st"
proof -
  let ?s = "clearTimeout h st"
  let ?w = "fst (env (now ?s))" and ?el = "snd (env (now ?s))"
  let ?st1 = "run_callback env m Evaluation ?s"
  have st1: "?st1 = snd (evaluation ?w m ?el ?s)" by (simp add: run_callback_def)
  note eff = evaluation_effect [of ?w m ?el ?s]
  have wf: "wf_timers ?s" using ok by (simp add: timers_ok_def wf_timers_clearTimeout)
  have th: "timer st = Some h" by (rule timers_ok_evaluation_handle [OF ok entry])
  have none: "timers ?s h' \<noteq> Some (d, Evaluation)" for h' d
  proof (cases "h' = h")
    case True
    then show ?thesis by (simp add: clearTimeout_def)
  next
    case False
    have "timers st h' \<noteq> Some (d, Evaluation)"
    proof
      assume "timers st h' = Some (d, Evaluation)"
      from timers_ok_evaluation_handle [OF ok this] th False show False by simp
    qed
    with False show ?thesis by (simp add: clearTimeout_def)
  qed
  have a: "adds_no_evaluation ?s ?st1" using eff st1 by simp
  have wf1: "wf_timers ?st1" by (rule adds_no_evaluation_entries(1) [OF wf a])
  have none1: "timers ?st1 h' \<noteq> Some (d, Evaluation)" for h' d
    using adds_no_evaluation_entries(2) [OF wf a, of h' d] none [of h' d] by simp
  show "timer ?st1 = None" using eff st1 by simp
  then show "timers_ok ?st1" using wf1 none1 by (simp add: timers_ok_def)
  show "evaluations ?st1 = evaluations st @ [now st]"
    using eff st1 by (simp add: clearTimeout_def)
  show "now ?st1 = now st"
    using a by (simp add: adds_no_evaluation_def clearTimeout_def)
qed



lemma pending_evaluation_None:
  assumes "timers_ok st"
  shows "pending_evaluation st = None \<longleftrightarrow> timer st = None"
proof (cases "timer st")
  case None
  then show ?thesis by (simp add: pending_evaluation_def)
next
  case (Some h0)
  with assms obtain due where "timers st h0 = Some (due, Evaluation)"
    by (auto simp: timers_ok_def)
  with Some show ?thesis by (simp add: pending_evaluation_def)
qed















section \<open>Debouncing on a calm page\<close>











section \<open>Debouncing in v3\<close>















section \<open>A burst of mutations gives one evaluation\<close>








end
